theory Spec2Isabelle
  imports Main "HOL-Library.AList" "HOL-Library.Char_ord" "HOL-Library.List_Lexorder"
    "HOL-Library.Multiset"
begin

section \<open>Python strings\<close>

text \<open>
  A Python \<open>str\<close> is modelled as a \<open>string\<close>: a list of characters with code points
  0..255. Comparison of strings (\<open><\<close>, \<open>sorted\<close>) is Python's: lexicographic by code
  point, a proper prefix being smaller (\<open>HOL-Library.List_Lexorder\<close> over
  \<open>HOL-Library.Char_ord\<close>).
\<close>

definition is_space :: "char \<Rightarrow> bool" where
  \<comment> \<open>\<open>str.isspace\<close> on the code points below 256.\<close>
  "is_space c =
     (let n = (of_char c :: nat)
      in (9 \<le> n \<and> n \<le> 13) \<or> (28 \<le> n \<and> n \<le> 32) \<or> n = 133 \<or> n = 160)"

definition lower_char :: "char \<Rightarrow> char" where
  \<comment> \<open>\<open>str.lower\<close> on one character: A..Z and the Latin-1 capitals move up by 32.\<close>
  "lower_char c =
     (let n = (of_char c :: nat)
      in if (65 \<le> n \<and> n \<le> 90) \<or> (192 \<le> n \<and> n \<le> 222 \<and> n \<noteq> 215)
         then char_of (n + 32) else c)"

definition upper_char :: "char \<Rightarrow> char" where
  \<comment> \<open>\<open>str.upper\<close> on one character whose capital is one character below 256.\<close>
  "upper_char c =
     (let n = (of_char c :: nat)
      in if (97 \<le> n \<and> n \<le> 122) \<or> (224 \<le> n \<and> n \<le> 254 \<and> n \<noteq> 247)
         then char_of (n - 32) else c)"

definition title_char :: "char \<Rightarrow> string" where
  \<comment> \<open>the title-cased first character of \<open>str.capitalize\<close>: code point 223 becomes the
      two characters \<open>Ss\<close>. The capitals of code points 181 and 255 lie above 255, outside
      the characters modelled; these two are left as they are.\<close>
  "title_char c = (if of_char c = (223::nat) then ''Ss'' else [upper_char c])"

definition lower :: "string \<Rightarrow> string" where
  "lower s = map lower_char s"

definition capitalize :: "string \<Rightarrow> string" where
  \<comment> \<open>\<open>str.capitalize\<close>: first character title-cased, the rest lower-cased.\<close>
  "capitalize s = (case s of [] \<Rightarrow> [] | c # cs \<Rightarrow> title_char c @ lower cs)"

definition strip :: "string \<Rightarrow> string" where
  \<comment> \<open>\<open>str.strip()\<close>: leading and trailing whitespace removed.\<close>
  "strip s = rev (dropWhile is_space (rev (dropWhile is_space s)))"

definition strip_chars :: "char \<Rightarrow> string \<Rightarrow> string" where
  \<comment> \<open>\<open>str.strip(c)\<close> for a one-character argument.\<close>
  "strip_chars c s = rev (dropWhile (\<lambda>x. x = c) (rev (dropWhile (\<lambda>x. x = c) s)))"

fun split_ws_acc :: "string \<Rightarrow> string \<Rightarrow> string list" where
  "split_ws_acc cur [] = (if cur = [] then [] else [cur])"
| "split_ws_acc cur (c # cs) =
     (if is_space c
      then (if cur = [] then split_ws_acc [] cs else cur # split_ws_acc [] cs)
      else split_ws_acc (cur @ [c]) cs)"

definition split_ws :: "string \<Rightarrow> string list" where
  \<comment> \<open>\<open>str.split()\<close>: the maximal runs of non-whitespace characters.\<close>
  "split_ws s = split_ws_acc [] s"

fun split_on_acc :: "char \<Rightarrow> string \<Rightarrow> string \<Rightarrow> string list" where
  "split_on_acc sep cur [] = [cur]"
| "split_on_acc sep cur (c # cs) =
     (if c = sep then cur # split_on_acc sep [] cs else split_on_acc sep (cur @ [c]) cs)"

definition split_on :: "char \<Rightarrow> string \<Rightarrow> string list" where
  \<comment> \<open>\<open>str.split(sep)\<close> for a one-character separator: empty pieces are kept.\<close>
  "split_on sep s = split_on_acc sep [] s"

fun join :: "string \<Rightarrow> string list \<Rightarrow> string" where
  "join sep [] = []"
| "join sep [x] = x"
| "join sep (x # y # ys) = x @ sep @ join sep (y # ys)"

fun starts_with :: "string \<Rightarrow> string \<Rightarrow> bool" where
  "starts_with [] s = True"
| "starts_with (p # ps) [] = False"
| "starts_with (p # ps) (c # cs) = (p = c \<and> starts_with ps cs)"

fun contains :: "string \<Rightarrow> string \<Rightarrow> bool" where
  \<comment> \<open>\<open>p in s\<close> on strings.\<close>
  "contains p [] = (p = [])"
| "contains p (c # cs) = (starts_with p (c # cs) \<or> contains p cs)"

definition replace_char :: "char \<Rightarrow> char \<Rightarrow> string \<Rightarrow> string" where
  \<comment> \<open>\<open>str.replace(a, b)\<close> for one-character arguments.\<close>
  "replace_char a b s = map (\<lambda>c. if c = a then b else c) s"

section \<open>HTTP helpers: \<open>fetch_url\<close>\<close>

text \<open>
  The network is an oracle \<open>net\<close>: \<open>net n\<close> is the outcome of the \<open>n\<close>-th call of
  \<open>urlopen\<close> (counted from 0): a decoded body, an \<open>HTTPError\<close> with its status code, or
  a \<open>URLError\<close>/\<open>OSError\<close>. The state is the trace of the calls of \<open>urlopen\<close> and of
  \<open>time.sleep\<close> (with its argument, in seconds) in the order in which they are made: an
  event that stands later in the trace happens later.
\<close>

datatype response = Body string | HTTPError nat | URLError

datatype fetch_event = Request | Sleep nat

definition requests :: "fetch_event list \<Rightarrow> nat" where
  \<comment> \<open>the number of requests issued so far\<close>
  "requests trace = length (filter (\<lambda>e. e = Request) trace)"

text \<open>
  The loop \<open>for attempt in range(retries)\<close>, over the attempts that remain. In the loop
  \<open>attempt < retries\<close>, so the subtraction \<open>retries - 1\<close> is exact on \<open>nat\<close>.
\<close>

fun fetch_attempts ::
  "(nat \<Rightarrow> response) \<Rightarrow> nat \<Rightarrow> nat list \<Rightarrow> fetch_event list
     \<Rightarrow> string option \<times> fetch_event list" where
  "fetch_attempts net retries [] trace = (None, trace)"
| "fetch_attempts net retries (attempt # rest) trace =
     (case net (requests trace) of
        Body text \<Rightarrow> (Some text, trace @ [Request])
      | HTTPError code \<Rightarrow>
          if code = 429
          then fetch_attempts net retries rest (trace @ [Request, Sleep (2 ^ (attempt + 2))])
          else if (code = 404 \<or> code = 503) \<and> attempt < retries - 1
          then fetch_attempts net retries rest (trace @ [Request, Sleep (2 ^ (attempt + 1))])
          else (None, trace @ [Request])
      | URLError \<Rightarrow>
          fetch_attempts net retries rest (trace @ [Request, Sleep (2 ^ (attempt + 1))]))"

definition fetch_url ::
  "(nat \<Rightarrow> response) \<Rightarrow> nat \<Rightarrow> fetch_event list \<Rightarrow> string option \<times> fetch_event list" where
  "fetch_url net retries trace = fetch_attempts net retries [0..<retries] trace"

section \<open>Snapshot discovery: \<open>dedupe_snapshots_by_month\<close>\<close>

text \<open>
  A snapshot is one row of the CDX answer, a dict over the header
  \<open>timestamp, original, statuscode, mimetype, digest\<close>. The dict \<open>by_month\<close> is an
  association list in insertion order, which is the order of \<open>dict.values()\<close>;
  \<open>AList.update\<close> is the assignment \<open>d[k] = v\<close> (a new key goes to the end).
  \<open>sorted\<close> is stable, as \<open>sort_key\<close> is.
\<close>

record snapshot =
  timestamp :: string
  original :: string
  statuscode :: string
  mimetype :: string
  digest :: string

definition month_key :: "snapshot \<Rightarrow> string" where
  "month_key snap = take 6 (timestamp snap)"

fun by_month_loop :: "snapshot list \<Rightarrow> (string \<times> snapshot) list \<Rightarrow> (string \<times> snapshot) list" where
  "by_month_loop [] by_month = by_month"
| "by_month_loop (snap # rest) by_month =
     (if map_of by_month (month_key snap) = None
      then by_month_loop rest (AList.update (month_key snap) snap by_month)
      else by_month_loop rest by_month)"

definition dedupe_snapshots_by_month :: "snapshot list \<Rightarrow> snapshot list" where
  "dedupe_snapshots_by_month snapshots =
     sort_key timestamp (map snd (by_month_loop snapshots []))"

section \<open>Job records\<close>

text \<open>
  A job is a Python dict with string values under some of the keys \<open>title\<close>, \<open>url\<close>,
  \<open>team\<close>, \<open>location\<close>, \<open>snapshot_date\<close>, \<open>wayback_url\<close>, \<open>original_url\<close>: a
  record of optional strings, \<open>None\<close> for an absent key.
\<close>

record job =
  title :: "string option"
  url :: "string option"
  team :: "string option"
  location :: "string option"
  snapshot_date :: "string option"
  wayback_url :: "string option"
  original_url :: "string option"

definition empty_job :: job where
  \<comment> \<open>the dict \<open>{}\<close>\<close>
  "empty_job = \<lparr>title = None, url = None, team = None, location = None,
     snapshot_date = None, wayback_url = None, original_url = None\<rparr>"

definition get_default :: "string \<Rightarrow> string option \<Rightarrow> string" where
  \<comment> \<open>\<open>job.get(key, default)\<close>\<close>
  "get_default d v = (case v of None \<Rightarrow> d | Some s \<Rightarrow> s)"

definition truthy :: "string option \<Rightarrow> bool" where
  \<comment> \<open>the truth value of \<open>job.get(key)\<close>: the key is present and its string is not empty\<close>
  "truthy v = (case v of None \<Rightarrow> False | Some s \<Rightarrow> s \<noteq> [])"

section \<open>Post-processing: \<open>classify_team\<close> and \<open>deduplicate_jobs\<close>\<close>

definition WNBA_TEAMS :: "string list" where
  "WNBA_TEAMS =
     [''Atlanta Dream'', ''Chicago Sky'', ''Connecticut Sun'', ''Dallas Wings'',
      ''Golden State Valkyries'', ''Indiana Fever'', ''Las Vegas Aces'',
      ''Los Angeles Sparks'', ''Minnesota Lynx'', ''New York Liberty'',
      ''Phoenix Mercury'', ''Portland'', ''Seattle Storm'', ''Washington Mystics'',
      ''WNBA League Office'', ''WNBA'']"

definition team_slug :: "string \<Rightarrow> string" where
  \<comment> \<open>\<open>team.lower().replace(" ", "-")\<close>\<close>
  "team_slug t = replace_char CHR '' '' CHR ''-'' (lower t)"

fun match_team :: "string \<Rightarrow> string list \<Rightarrow> string option" where
  \<comment> \<open>the loop \<open>for team in WNBA_TEAMS\<close>; \<open>None\<close> when it ends without returning\<close>
  "match_team text_lower [] = None"
| "match_team text_lower (t # rest) =
     (if contains (lower t) text_lower then Some t
      else if contains (team_slug t) text_lower then Some t
      else match_team text_lower rest)"

definition search_text :: "job \<Rightarrow> string" where
  \<comment> \<open>the f-string: title, original_url and url, joined by single spaces\<close>
  "search_text j =
     get_default [] (title j) @ '' '' @ get_default [] (original_url j) @ '' ''
       @ get_default [] (url j)"

definition classify_team :: "job \<Rightarrow> string" where
  "classify_team j =
     (if truthy (team j) then get_default [] (team j)
      else case match_team (lower (search_text j)) WNBA_TEAMS of
             Some t \<Rightarrow> t
           | None \<Rightarrow> ''Unknown / WNBA General'')"

definition dedup_key :: "job \<Rightarrow> string \<times> string" where
  "dedup_key j = (strip (lower (get_default [] (title j))), lower (classify_team j))"

definition job_date :: "job \<Rightarrow> string" where
  \<comment> \<open>\<open>job.get("snapshot_date", "9999")\<close>\<close>
  "job_date j = get_default ''9999'' (snapshot_date j)"

text \<open>
  The dict \<open>seen\<close> is an association list in insertion order; assigning to a key that is
  present keeps its place (\<open>AList.update\<close>).
\<close>

fun dedup_loop ::
  "job list \<Rightarrow> ((string \<times> string) \<times> job) list \<Rightarrow> ((string \<times> string) \<times> job) list" where
  "dedup_loop [] seen = seen"
| "dedup_loop (j # rest) seen =
     (case map_of seen (dedup_key j) of
        None \<Rightarrow> dedup_loop rest (AList.update (dedup_key j) j seen)
      | Some existing \<Rightarrow>
          if job_date j < job_date existing
          then dedup_loop rest (AList.update (dedup_key j) j seen)
          else dedup_loop rest seen)"

definition deduplicate_jobs :: "job list \<Rightarrow> job list" where
  "deduplicate_jobs jobs = map snd (dedup_loop jobs [])"

section \<open>HTML parsing: \<open>TeamWorkOnlineParser\<close>\<close>

text \<open>
  \<open>html.parser.HTMLParser\<close> is library code: its tokenizer is a parameter, and a
  document reaches the parser as the sequence of handler calls that \<open>feed\<close> makes
  (\<open>handle_startendtag\<close> being a start tag followed by an end tag; comments and
  declarations call handlers that do nothing). An attribute written without a value has
  the value \<open>None\<close>.
\<close>

datatype event =
  StartTag string "(string \<times> string option) list"
| EndTag string
| Data string

datatype capture = CaptureTitle | CaptureTeam | CaptureLocation | CaptureLinkText

record link =
  link_href :: string
  link_text :: string

record parser =
  jobs :: "job list"
  current_job :: job
  capture_text :: bool
  capture_target :: "capture option"
  depth :: nat
  in_job_card :: bool
  job_card_depth :: nat
  all_links :: "link list"
  text_buffer :: "string list"
  tag_stack :: "string list"

definition new_parser :: parser where
  "new_parser = \<lparr>jobs = [], current_job = empty_job, capture_text = False,
     capture_target = None, depth = 0, in_job_card = False, job_card_depth = 0,
     all_links = [], text_buffer = [], tag_stack = []\<rparr>"

definition attr_get :: "(string \<times> string option) list \<Rightarrow> string \<Rightarrow> string option" where
  \<comment> \<open>\<open>dict(attrs).get(name, "")\<close>: the last occurrence of a name wins; the result
      \<open>None\<close> is Python's \<open>None\<close>\<close>
  "attr_get attrs name = (case map_of (rev attrs) name of None \<Rightarrow> Some [] | Some v \<Rightarrow> v)"

definition any_in :: "string list \<Rightarrow> string \<Rightarrow> bool" where
  \<comment> \<open>\<open>any(p in s for p in patterns)\<close>\<close>
  "any_in patterns s = list_ex (\<lambda>p. contains p s) patterns"

definition is_job_card_start :: "string \<Rightarrow> string \<Rightarrow> bool" where
  "is_job_card_start tag cls =
     (if tag \<in> set [''div'', ''li'', ''article'', ''section'']
      then any_in [''organization-portal__job'', ''opportunitysearchresult'', ''search-result'',
                   ''job-listing'', ''job-card'', ''job-item'', ''opportunity-listing'']
             (lower cls)
      else False)"

definition is_job_link :: "string \<Rightarrow> bool" where
  "is_job_link h =
     (if contains ''/basketball-jobs/'' (lower h) then True
      else if contains ''teamworkonline.com'' (lower h) \<and> contains ''/jobs/'' (lower h) then True
      else if contains ''/opening/'' (lower h) then True
      else False)"

definition is_team_element :: "string \<Rightarrow> string \<Rightarrow> bool" where
  "is_team_element tag cls =
     any_in [''organization-portal__profile'', ''organization-name'', ''team-name'',
             ''employer'', ''company'', ''org-name''] (lower cls)"

definition is_location_element :: "string \<Rightarrow> string \<Rightarrow> bool" where
  "is_location_element tag cls = any_in [''location'', ''city'', ''job-location''] (lower cls)"

definition start_capture :: "capture \<Rightarrow> parser \<Rightarrow> parser" where
  "start_capture target p =
     p\<lparr>capture_text := True, capture_target := Some target, text_buffer := []\<rparr>"

definition job_link_tag :: "string \<Rightarrow> string option \<Rightarrow> bool" where
  \<comment> \<open>\<open>tag == "a" and href and self._is_job_link(href)\<close>\<close>
  "job_link_tag tag h = (tag = ''a'' \<and> truthy h \<and> is_job_link (get_default [] h))"

text \<open>
  \<open>handle_starttag\<close>. \<open>_is_job_card_start\<close> is called first and lower-cases the class:
  when the class attribute has no value this raises \<open>AttributeError\<close>, after the depth and
  the tag stack have been updated. \<open>Inl\<close> is the raise, with the state it leaves behind.
\<close>

definition handle_starttag ::
  "string \<Rightarrow> (string \<times> string option) list \<Rightarrow> parser \<Rightarrow> parser + parser" where
  "handle_starttag tag attrs p =
     (let h = attr_get attrs ''href'';
          p1 = p\<lparr>depth := depth p + 1, tag_stack := tag_stack p @ [tag]\<rparr>
      in case attr_get attrs ''class'' of
           None \<Rightarrow> Inl p1
         | Some cls \<Rightarrow>
             let p2 = (if is_job_card_start tag cls
                       then p1\<lparr>in_job_card := True, job_card_depth := depth p1,
                               current_job := empty_job\<rparr>
                       else p1);
                 p3 = (if in_job_card p2
                       then
                         let q1 = (if job_link_tag tag h
                                   then start_capture CaptureTitle
                                          (p2\<lparr>current_job := (current_job p2)\<lparr>url := h\<rparr>\<rparr>)
                                   else p2);
                             q2 = (if is_team_element tag cls
                                   then start_capture CaptureTeam q1 else q1)
                         in if is_location_element tag cls
                            then start_capture CaptureLocation q2 else q2
                       else p2)
             in Inr (if job_link_tag tag h
                     then
                       let p4 = p3\<lparr>all_links := all_links p3
                                     @ [\<lparr>link_href = get_default [] h, link_text = []\<rparr>]\<rparr>
                       in if \<not> in_job_card p4 then start_capture CaptureLinkText p4 else p4
                     else p3))"

definition normalize_ws :: "string \<Rightarrow> string" where
  \<comment> \<open>\<open>" ".join(s.split()).strip()\<close>\<close>
  "normalize_ws s = strip (join '' '' (split_ws s))"

definition set_last_link_text :: "string \<Rightarrow> link list \<Rightarrow> link list" where
  \<comment> \<open>\<open>if self._all_links: self._all_links[-1]["text"] = text\<close>\<close>
  "set_last_link_text t links =
     (if links = [] then links else butlast links @ [(last links)\<lparr>link_text := t\<rparr>])"

definition finish_capture :: "parser \<Rightarrow> parser" where
  "finish_capture p =
     (let t = normalize_ws (concat (text_buffer p));
          p1 = (if capture_target p = Some CaptureTitle \<and> t \<noteq> []
                then p\<lparr>current_job := (current_job p)\<lparr>title := Some t\<rparr>\<rparr>
                else if capture_target p = Some CaptureTeam \<and> t \<noteq> []
                then p\<lparr>current_job := (current_job p)\<lparr>team := Some t\<rparr>\<rparr>
                else if capture_target p = Some CaptureLocation \<and> t \<noteq> []
                then p\<lparr>current_job := (current_job p)\<lparr>location := Some t\<rparr>\<rparr>
                else if capture_target p = Some CaptureLinkText \<and> t \<noteq> []
                then p\<lparr>all_links := set_last_link_text t (all_links p)\<rparr>
                else p)
      in p1\<lparr>capture_text := False, capture_target := None, text_buffer := []\<rparr>)"

definition close_job_card :: "parser \<Rightarrow> parser" where
  "close_job_card p =
     (let p1 = (if truthy (title (current_job p)) \<or> truthy (url (current_job p))
                then p\<lparr>jobs := jobs p @ [current_job p]\<rparr> else p)
      in p1\<lparr>in_job_card := False, current_job := empty_job\<rparr>)"

definition handle_endtag :: "string \<Rightarrow> parser \<Rightarrow> parser" where
  "handle_endtag tag p =
     (let p1 = (if capture_text p \<and> tag_stack p \<noteq> [] \<and> last (tag_stack p) = tag
                then finish_capture p else p);
          p2 = (if in_job_card p1 \<and> depth p1 \<le> job_card_depth p1
                then close_job_card p1 else p1)
      in p2\<lparr>tag_stack := butlast (tag_stack p2), depth := depth p2 - 1\<rparr>)"

definition handle_data :: "string \<Rightarrow> parser \<Rightarrow> parser" where
  "handle_data d p = (if capture_text p then p\<lparr>text_buffer := text_buffer p @ [d]\<rparr> else p)"

text \<open>
  \<open>parser.feed(html)\<close> inside \<open>try\<close>: the handler calls in order; an exception ends the
  feed, is logged, and the parser keeps the state it had.
\<close>

fun feed :: "event list \<Rightarrow> parser \<Rightarrow> parser" where
  "feed [] p = p"
| "feed (StartTag tag attrs # rest) p =
     (case handle_starttag tag attrs p of Inl p' \<Rightarrow> p' | Inr p' \<Rightarrow> feed rest p')"
| "feed (EndTag tag # rest) p = feed rest (handle_endtag tag p)"
| "feed (Data d # rest) p = feed rest (handle_data d p)"

section \<open>Regular expressions of the extraction\<close>

text \<open>
  Each pattern is written out as the search that Python's backtracking matcher performs
  for it: the leftmost start position, greedy parts longest first, lazy parts shortest
  first. A literal under \<open>re.IGNORECASE\<close> is compared with the lower-cased text.
\<close>

definition ci_starts_with :: "string \<Rightarrow> string \<Rightarrow> bool" where
  "ci_starts_with p s = starts_with p (lower (take (length p) s))"

definition is_quote :: "char \<Rightarrow> bool" where
  \<comment> \<open>the class \<open>["\']\<close>: a double or a single quote\<close>
  "is_quote c = (of_char c = (34::nat) \<or> of_char c = (39::nat))"

definition not_gt :: "char \<Rightarrow> bool" where
  \<comment> \<open>the class \<open>[^>]\<close>\<close>
  "not_gt c = (c \<noteq> CHR ''>'')"

definition not_slash :: "char \<Rightarrow> bool" where
  \<comment> \<open>the class \<open>[^/]\<close>\<close>
  "not_slash c = (c \<noteq> CHR ''/'')"

definition is_digit :: "char \<Rightarrow> bool" where
  \<comment> \<open>\<open>\d\<close> on the code points below 256\<close>
  "is_digit c = (48 \<le> (of_char c :: nat) \<and> (of_char c :: nat) \<le> 57)"

definition not_newline :: "char \<Rightarrow> bool" where
  \<comment> \<open>\<open>.\<close> without \<open>re.DOTALL\<close>\<close>
  "not_newline c = (c \<noteq> CHR 0x0A)"

subsection \<open>\<open>_team_from_url\<close> and \<open>_slug_to_name\<close>\<close>

definition slug_to_name :: "string \<Rightarrow> string" where
  "slug_to_name slug = join '' '' (map capitalize (split_on CHR ''-'' slug))"

definition team_group :: "string \<Rightarrow> string" where
  \<comment> \<open>group 1 of \<open>([^/]+?)(?:jobs|team)?/\<close> on a path segment that a slash follows:
      the shortest non-empty prefix after which \<open>jobs\<close>, \<open>team\<close> or nothing remains\<close>
  "team_group seg =
     (if 4 < length seg \<and> lower (drop (length seg - 4) seg) \<in> set [''jobs'', ''team'']
      then take (length seg - 4) seg else seg)"

definition team_match_at :: "string \<Rightarrow> string option" where
  \<comment> \<open>the pattern \<open>/basketball-jobs/([^/]+?)(?:jobs|team)?/\<close> at the start of \<open>s\<close>\<close>
  "team_match_at s =
     (if ci_starts_with ''/basketball-jobs/'' s
      then
        let seg = takeWhile not_slash (drop 17 s);
            after = dropWhile not_slash (drop 17 s)
        in if seg \<noteq> [] \<and> after \<noteq> [] then Some (team_group seg) else None
      else None)"

fun team_search :: "string \<Rightarrow> string option" where
  \<comment> \<open>\<open>re.search\<close>: the first start position with a match\<close>
  "team_search [] = None"
| "team_search (c # cs) =
     (case team_match_at (c # cs) of Some g \<Rightarrow> Some g | None \<Rightarrow> team_search cs)"

definition team_from_url :: "string \<Rightarrow> string option" where
  "team_from_url u =
     (case team_search u of
        None \<Rightarrow> None
      | Some g \<Rightarrow>
          let slug = strip_chars CHR ''-'' g
          in if lower slug \<notin> set [''wnbateamjobs'', ''wnba-team'']
             then Some (slug_to_name slug) else None)"

definition fallback_job :: "string \<Rightarrow> string \<Rightarrow> job" where
  \<comment> \<open>\<open>{"title": text, "url": href}\<close>, with \<open>team\<close> when \<open>_team_from_url\<close> gives a
      non-empty name\<close>
  "fallback_job t h =
     (let j = empty_job\<lparr>title := Some t, url := Some h\<rparr>
      in if truthy (team_from_url h) then j\<lparr>team := team_from_url h\<rparr> else j)"

subsection \<open>\<open>_regex_fallback\<close>\<close>

fun find_close :: "string \<Rightarrow> string option" where
  \<comment> \<open>\<open>(.*?)</a>\<close> under \<open>re.DOTALL\<close>: the text before the first \<open></a>\<close>\<close>
  "find_close [] = None"
| "find_close (c # cs) =
     (if ci_starts_with ''</a>'' (c # cs) then Some []
      else map_option ((#) c) (find_close cs))"

text \<open>
  \<open>href=["\']([^"\']*?/basketball-jobs/[^"\']+)["\'][^>]*>(.*?)</a>\<close> at the start of
  \<open>s\<close>. Between the quotes no quote occurs, so group 1 is the whole run \<open>v\<close> up to the
  next quote, and it matches when the marker occurs in \<open>v\<close> with a character after it.
  The result is group 1, group 2 and the number of characters matched.
\<close>

definition href_onwards :: "string \<Rightarrow> (string \<times> string \<times> nat) option" where
  "href_onwards s =
     (if \<not> ci_starts_with ''href='' s then None
      else case drop 5 s of
        [] \<Rightarrow> None
      | q # s1 \<Rightarrow>
          if \<not> is_quote q then None
          else
            let v = takeWhile (\<lambda>c. \<not> is_quote c) s1
            in if \<not> contains ''/basketball-jobs/'' (lower (butlast v)) then None
               else case drop (length v) s1 of
                 [] \<Rightarrow> None
               | q2 # s3 \<Rightarrow>
                   let a = takeWhile not_gt s3
                   in case drop (length a) s3 of
                     [] \<Rightarrow> None
                   | gt # s5 \<Rightarrow>
                       (case find_close s5 of
                          None \<Rightarrow> None
                        | Some inner \<Rightarrow>
                            Some (v, inner,
                                  5 + 1 + length v + 1 + length a + 1 + length inner + 4)))"

fun greedy_attrs :: "nat \<Rightarrow> string \<Rightarrow> (string \<times> string \<times> nat) option" where
  \<comment> \<open>\<open>[^>]+\<close> taking \<open>n\<close> characters, the largest \<open>n\<close> first, down to one\<close>
  "greedy_attrs 0 s = None"
| "greedy_attrs (Suc n) s =
     (case href_onwards (drop (Suc n) s) of
        Some (h, inner, len) \<Rightarrow> Some (h, inner, 2 + Suc n + len)
      | None \<Rightarrow> greedy_attrs n s)"

definition match_anchor_at :: "string \<Rightarrow> (string \<times> string \<times> nat) option" where
  "match_anchor_at s =
     (if ci_starts_with ''<a'' s
      then greedy_attrs (length (takeWhile not_gt (drop 2 s))) (drop 2 s)
      else None)"

fun finditer_from :: "nat \<Rightarrow> string \<Rightarrow> (string \<times> string) list" where
  \<comment> \<open>\<open>pattern.finditer\<close>: \<open>skip\<close> characters still belong to the previous match\<close>
  "finditer_from skip [] = []"
| "finditer_from skip (c # cs) =
     (if 0 < skip then finditer_from (skip - 1) cs
      else case match_anchor_at (c # cs) of
             Some (h, inner, len) \<Rightarrow> (h, inner) # finditer_from (len - 1) cs
           | None \<Rightarrow> finditer_from 0 cs)"

definition finditer :: "string \<Rightarrow> (string \<times> string) list" where
  "finditer html = finditer_from 0 html"

fun strip_tags_from :: "nat \<Rightarrow> string \<Rightarrow> string" where
  \<comment> \<open>\<open>re.sub(r"<[^>]+>", "", s)\<close>\<close>
  "strip_tags_from skip [] = []"
| "strip_tags_from skip (c # cs) =
     (if 0 < skip then strip_tags_from (skip - 1) cs
      else if c = CHR ''<'' \<and> takeWhile not_gt cs \<noteq> []
                \<and> drop (length (takeWhile not_gt cs)) cs \<noteq> []
      then strip_tags_from (length (takeWhile not_gt cs) + 1) cs
      else c # strip_tags_from 0 cs)"

definition strip_tags :: "string \<Rightarrow> string" where
  "strip_tags s = strip_tags_from 0 s"

definition anchor_text :: "string \<Rightarrow> string" where
  \<comment> \<open>\<open>re.sub(r"<[^>]+>", "", match.group(2)).strip()\<close>\<close>
  "anchor_text inner = strip (strip_tags inner)"

definition regex_fallback :: "string \<Rightarrow> job list" where
  "regex_fallback html =
     concat (map (\<lambda>(h, inner).
                    if anchor_text inner \<noteq> [] \<and> 3 < length (anchor_text inner)
                    then [fallback_job (anchor_text inner) h] else [])
                 (finditer html))"

subsection \<open>\<open>extract_jobs_from_html\<close>\<close>

definition skip_link :: "string \<Rightarrow> bool" where
  "skip_link t =
     any_in [''sign in'', ''log in'', ''register'', ''home'', ''about'', ''contact'',
             ''privacy'', ''terms''] (lower t)"

definition link_fallback :: "link list \<Rightarrow> job list" where
  "link_fallback links =
     concat (map (\<lambda>l. if link_text l \<noteq> [] \<and> \<not> skip_link (link_text l)
                       then [fallback_job (link_text l) (link_href l)] else [])
                 links)"

definition extract_jobs_from_html :: "(string \<Rightarrow> event list) \<Rightarrow> string \<Rightarrow> job list" where
  "extract_jobs_from_html tokenize html =
     (let p = feed (tokenize html) new_parser;
          found = (if jobs p = [] \<and> all_links p \<noteq> []
                   then jobs p @ link_fallback (all_links p) else jobs p)
      in if found = [] then regex_fallback html else found)"

subsection \<open>\<open>clean_wayback_url\<close>\<close>

text \<open>
  \<open>/web/\d+(?:id_)?/(https?://.+)\<close> at the start of \<open>s\<close>: the digits are the whole run
  of digits, \<open>id_\<close> is taken when it is there, and group 1 runs from \<open>http\<close> to the end
  of the line.
\<close>

definition wrapper_at :: "string \<Rightarrow> string option" where
  "wrapper_at s =
     (if \<not> starts_with ''/web/'' s then None
      else
        let d = takeWhile is_digit (drop 5 s);
            s2 = drop (length d) (drop 5 s);
            s3 = (if starts_with ''id_'' s2 then drop 3 s2 else s2)
        in if d = [] then None
           else case s3 of
             [] \<Rightarrow> None
           | c # s4 \<Rightarrow>
               let g = takeWhile not_newline s4
               in if c = CHR ''/''
                     \<and> ((starts_with ''https://'' g \<and> 8 < length g)
                        \<or> (starts_with ''http://'' g \<and> 7 < length g))
                  then Some g else None)"

fun search_wrapper :: "string \<Rightarrow> string option" where
  "search_wrapper [] = None"
| "search_wrapper (c # cs) =
     (case wrapper_at (c # cs) of Some g \<Rightarrow> Some g | None \<Rightarrow> search_wrapper cs)"

definition clean_wayback_url :: "string \<Rightarrow> string" where
  "clean_wayback_url u = (case search_wrapper u of Some g \<Rightarrow> g | None \<Rightarrow> u)"

section \<open>Example data and proof vocabulary\<close>

definition snap_at :: "string \<Rightarrow> snapshot" where
  "snap_at ts = \<lparr>timestamp = ts, original = ''https://www.teamworkonline.com/basketball-jobs/wnbateamjobs/wnba-team-jobs'',
     statuscode = ''200'', mimetype = ''text/html'', digest = ts\<rparr>"

definition posting :: "string \<Rightarrow> string \<Rightarrow> string \<Rightarrow> string \<Rightarrow> job" where
  "posting ti te d u =
     empty_job\<lparr>title := Some ti, url := Some u, team := Some te, snapshot_date := Some d\<rparr>"

text \<open>The invariant of the loop of \<open>deduplicate_jobs\<close> after the records \<open>xs\<close>.\<close>

definition dedup_inv :: "job list \<Rightarrow> ((string \<times> string) \<times> job) list \<Rightarrow> bool" where
  "dedup_inv xs seen \<longleftrightarrow>
     distinct (map fst seen) \<and>
     fst ` set seen = dedup_key ` set xs \<and>
     (\<forall>k r. map_of seen k = Some r \<longrightarrow>
        dedup_key r = k \<and>
        find (\<lambda>j. dedup_key j = k \<and> job_date j = job_date r) xs = Some r \<and>
        (\<forall>j \<in> set xs. dedup_key j = k \<longrightarrow> job_date r \<le> job_date j))"

text \<open>The records of a set that have the least date under their key.\<close>

definition least_jobs :: "job set \<Rightarrow> job set" where
  "least_jobs S = {r \<in> S. \<forall>j \<in> S. dedup_key j = dedup_key r \<longrightarrow> job_date r \<le> job_date j}"

text \<open>A record that would be kept: its title or its url is present and not empty.\<close>

definition has_title_or_url :: "job \<Rightarrow> bool" where
  "has_title_or_url j \<longleftrightarrow> truthy (title j) \<or> truthy (url j)"

text \<open>Example documents, as handler calls and as markup.\<close>

definition card_events :: "event list" where
  "card_events =
     [StartTag ''div'' [(''class'', Some ''job-card'')],
      StartTag ''a'' [(''href'', Some ''/basketball-jobs/chicago-sky/1'')],
      Data '' Ticket  Sales '', EndTag ''a'',
      StartTag ''span'' [(''class'', Some ''team-name'')], Data ''Chicago Sky'', EndTag ''span'',
      EndTag ''div'']"

definition link_events :: "event list" where
  "link_events =
     [StartTag ''p'' [],
      StartTag ''a'' [(''href'', Some ''/basketball-jobs/chicago-sky/1'')],
      Data ''Ticket Sales'', EndTag ''a'',
      StartTag ''a'' [(''href'', Some ''/opening/2'')], Data ''Home'', EndTag ''a'',
      EndTag ''p'']"

definition staff_html :: string where
  "staff_html = ''<a href=\"/basketball-jobs/chicago-sky/7\">Home Game Staff</a>''"

definition staff_events :: "event list" where
  "staff_events =
     [StartTag ''a'' [(''href'', Some ''/basketball-jobs/chicago-sky/7'')],
      Data ''Home Game Staff'', EndTag ''a'']"

definition nested_url :: string where
  \<comment> \<open>the archived copy of an archive URL\<close>
  "nested_url =
     ''https://web.archive.org/web/2024id_/https://web.archive.org/web/2023/https://example.com/job/42''"

definition short_html :: string where
  "short_html =
     ''<a href=\"/basketball-jobs/chicago-sky/1\">Go</a><a href=\"/basketball-jobs/x/2\"><b> GM </b></a>''"

section \<open>Properties\<close>

subsection \<open>\<open>fetch_url\<close>\<close>

lemma requests_append:
  "requests (trace @ evs) = requests trace + requests evs"
  by (simp add: requests_def)

text \<open>
  C6. When the first two requests of a call of \<open>fetch_url\<close> (with the default three
  retries) fail with HTTP 429 and the third succeeds, the call returns the body of the
  third, and what it does is, in this order: the first request, a sleep of 2^(0+2) = 4
  seconds, the second request, a sleep of 2^(1+2) = 8 seconds, the third request, and
  nothing after it.
\<close>

theorem fetch_url_429_twice_then_success:
  assumes "net (requests trace) = HTTPError 429"
    and "net (requests trace + 1) = HTTPError 429"
    and "net (requests trace + 2) = Body text"
  shows "fetch_url net 3 trace =
           (Some text,
            trace @ [Request, Sleep (2 ^ (0 + 2)), Request, Sleep (2 ^ (1 + 2)), Request])
         \<and> (2::nat) ^ (0 + 2) = 4 \<and> (2::nat) ^ (1 + 2) = 8"
proof -
  have u: "[0..<3] = [0, 1, 2]"
    by (simp add: upt_rec)
  have r1: "requests (trace @ [Request, Sleep (2 ^ (0 + 2))]) = requests trace + 1"
    by (simp add: requests_append) (simp add: requests_def)
  have r2: "requests (trace @ [Request, Sleep (2 ^ (0 + 2)), Request, Sleep (2 ^ (1 + 2))])
              = requests trace + 2"
    by (simp add: requests_append) (simp add: requests_def)
  have a1: "fetch_attempts net 3 [0, 1, 2] trace
              = fetch_attempts net 3 [1, 2] (trace @ [Request, Sleep (2 ^ (0 + 2))])"
    using assms(1) by simp
  have a2: "fetch_attempts net 3 [1, 2] (trace @ [Request, Sleep (2 ^ (0 + 2))])
              = fetch_attempts net 3 [2]
                  (trace @ [Request, Sleep (2 ^ (0 + 2)), Request, Sleep (2 ^ (1 + 2))])"
    using assms(2) r1 by simp
  have a3: "fetch_attempts net 3 [2]
              (trace @ [Request, Sleep (2 ^ (0 + 2)), Request, Sleep (2 ^ (1 + 2))])
            = (Some text,
               trace @ [Request, Sleep (2 ^ (0 + 2)), Request, Sleep (2 ^ (1 + 2)), Request])"
    using assms(3) r2 by simp
  have "fetch_url net 3 trace = fetch_attempts net 3 [0, 1, 2] trace"
    by (simp only: fetch_url_def u)
  also note a1
  also note a2
  also note a3
  finally show ?thesis
    by simp
qed

theorem fetch_url_429_twice_then_success_witness:
  "fetch_url (\<lambda>n. [HTTPError 429, HTTPError 429, Body ''<html/>'', Body ''more''] ! n) 3 []
   = (Some ''<html/>'', [Request, Sleep 4, Request, Sleep 8, Request])"
  using fetch_url_429_twice_then_success
    [of "\<lambda>n. [HTTPError 429, HTTPError 429, Body ''<html/>'', Body ''more''] ! n"
        "[]" "''<html/>''"]
  by (simp add: requests_def)

subsection \<open>\<open>dedupe_snapshots_by_month\<close>\<close>

lemma update_fresh: "k \<notin> fst ` set al \<Longrightarrow> AList.update k v al = al @ [(k, v)]"
  by (induction al) auto

lemma by_month_loop_distinct:
  "distinct (map fst bm) \<Longrightarrow> distinct (map fst (by_month_loop xs bm))"
  by (induction xs arbitrary: bm) (auto simp: distinct_update)

lemma by_month_loop_keys:
  "fst ` set (by_month_loop xs bm) = fst ` set bm \<union> month_key ` set xs"
proof (induction xs arbitrary: bm)
  case Nil
  show ?case by simp
next
  case (Cons snap rest)
  show ?case
  proof (cases "map_of bm (month_key snap) = None")
    case True
    then show ?thesis using Cons.IH [of "AList.update (month_key snap) snap bm"]
      by (auto simp: dom_update)
  next
    case False
    then have "month_key snap \<in> fst ` set bm"
      by (simp add: map_of_eq_None_iff)
    then show ?thesis using False Cons.IH [of bm] by auto
  qed
qed

lemma by_month_loop_first:
  "(k, s) \<in> set (by_month_loop xs bm) \<Longrightarrow>
     (k, s) \<in> set bm \<or> (k \<notin> fst ` set bm \<and> find (\<lambda>t. month_key t = k) xs = Some s)"
proof (induction xs arbitrary: bm)
  case Nil
  then show ?case by simp
next
  case (Cons snap rest)
  show ?case
  proof (cases "map_of bm (month_key snap) = None")
    case True
    then have fresh: "month_key snap \<notin> fst ` set bm"
      by (simp add: map_of_eq_None_iff)
    from Cons.prems True have "(k, s) \<in> set (by_month_loop rest (bm @ [(month_key snap, snap)]))"
      by (simp add: update_fresh [OF fresh])
    from Cons.IH [OF this] show ?thesis using fresh by auto
  next
    case False
    then have old: "month_key snap \<in> fst ` set bm"
      by (simp add: map_of_eq_None_iff)
    from Cons.prems False have "(k, s) \<in> set (by_month_loop rest bm)" by simp
    from Cons.IH [OF this] show ?thesis using old by auto
  qed
qed

lemma find_first_sorted:
  assumes "sorted (map f xs)" and "find P xs = Some r" and "s \<in> set xs" and "P s"
  shows "f r \<le> f s"
  using assms
proof (induction xs)
  case Nil
  then show ?case by simp
next
  case (Cons x xs)
  then show ?case by (auto split: if_splits)
qed


lemma by_month_loop_month_key:
  assumes "(k, s) \<in> set (by_month_loop xs [])"
  shows "find (\<lambda>t. month_key t = k) xs = Some s" and "month_key s = k" and "s \<in> set xs"
proof -
  from by_month_loop_first [OF assms] show f: "find (\<lambda>t. month_key t = k) xs = Some s"
    by simp
  from f show "month_key s = k" by (auto simp: find_Some_iff)
  from f show "s \<in> set xs" by (auto simp: find_Some_iff)
qed

lemma by_month_loop_values_keys:
  "map month_key (map snd (by_month_loop xs [])) = map fst (by_month_loop xs [])"
  using by_month_loop_month_key(2) [of _ _ xs] by (auto simp: map_eq_conv)

lemma set_dedupe_snapshots_by_month:
  "set (dedupe_snapshots_by_month xs) = snd ` set (by_month_loop xs [])"
  by (simp add: dedupe_snapshots_by_month_def)

text \<open>
  C1 (as the code has it). The monthly reduction returns its result sorted by timestamp
  ascending, with at most one descriptor per year-month key (the first 6 characters of
  the timestamp) and every key of the input represented. The descriptor retained for a
  key is the first one in input order with that key; it has the minimum timestamp of its
  month whenever the input list is ordered by timestamp ascending.
\<close>

theorem dedupe_snapshots_by_month_keeps_first:
  "sorted (map timestamp (dedupe_snapshots_by_month snaps)) \<and>
   distinct (map month_key (dedupe_snapshots_by_month snaps)) \<and>
   month_key ` set (dedupe_snapshots_by_month snaps) = month_key ` set snaps \<and>
   (\<forall>r \<in> set (dedupe_snapshots_by_month snaps).
      find (\<lambda>s. month_key s = month_key r) snaps = Some r) \<and>
   (sorted (map timestamp snaps) \<longrightarrow>
      (\<forall>r \<in> set (dedupe_snapshots_by_month snaps). \<forall>s \<in> set snaps.
         month_key s = month_key r \<longrightarrow> timestamp r \<le> timestamp s))"
proof -
  let ?bm = "by_month_loop snaps []"
  let ?d = "dedupe_snapshots_by_month snaps"
  have srt: "sorted (map timestamp ?d)"
    by (simp add: dedupe_snapshots_by_month_def)
  have "distinct (map fst ?bm)"
    by (rule by_month_loop_distinct) simp
  then have "distinct (map month_key (map snd ?bm))"
    by (simp only: by_month_loop_values_keys)
  moreover have "mset ?d = mset (map snd ?bm)"
    by (simp add: dedupe_snapshots_by_month_def)
  then have "mset (map month_key ?d) = mset (map month_key (map snd ?bm))"
    by (simp only: mset_map)
  ultimately have dist: "distinct (map month_key ?d)"
    by (metis mset_eq_imp_distinct_iff)
  have "month_key ` set ?d = fst ` set ?bm"
    using by_month_loop_values_keys [of snaps]
    by (metis set_dedupe_snapshots_by_month list.set_map)
  then have keys: "month_key ` set ?d = month_key ` set snaps"
    by (simp add: by_month_loop_keys)
  have first: "find (\<lambda>s. month_key s = month_key r) snaps = Some r" if "r \<in> set ?d" for r
  proof -
    from that obtain k where m: "(k, r) \<in> set ?bm"
      by (auto simp: set_dedupe_snapshots_by_month)
    from by_month_loop_month_key(1,2) [OF m] show ?thesis by simp
  qed
  have least: "timestamp r \<le> timestamp s"
    if "sorted (map timestamp snaps)" "r \<in> set ?d" "s \<in> set snaps" "month_key s = month_key r"
    for r s
    using find_first_sorted [OF that(1) first [OF that(2)] that(3) that(4)] .
  from srt dist keys first least show ?thesis by blast
qed

theorem dedupe_snapshots_by_month_keeps_first_witness:
  "sorted (map timestamp [snap_at ''20240105120000'', snap_at ''20240203080000'', snap_at ''20240220090000''])
   \<and> dedupe_snapshots_by_month
        [snap_at ''20240105120000'', snap_at ''20240203080000'', snap_at ''20240220090000'']
      = [snap_at ''20240105120000'', snap_at ''20240203080000'']
   \<and> month_key (snap_at ''20240220090000'') = month_key (snap_at ''20240203080000'')
   \<and> timestamp (snap_at ''20240203080000'') \<le> timestamp (snap_at ''20240220090000'')"
  using dedupe_snapshots_by_month_keeps_first
    [of "[snap_at ''20240105120000'', snap_at ''20240203080000'', snap_at ''20240220090000'']"]
  by (simp add: dedupe_snapshots_by_month_def month_key_def snap_at_def)

text \<open>
  C1 as stated fails: on an input that is not in timestamp order the retained descriptor
  of a month is the first seen, here the later capture of February 2024.
\<close>

theorem dedupe_snapshots_by_month_not_minimum:
  "dedupe_snapshots_by_month [snap_at ''20240220090000'', snap_at ''20240203080000'']
     = [snap_at ''20240220090000'']
   \<and> month_key (snap_at ''20240203080000'') = month_key (snap_at ''20240220090000'')
   \<and> timestamp (snap_at ''20240203080000'') < timestamp (snap_at ''20240220090000'')"
  by (simp add: dedupe_snapshots_by_month_def month_key_def snap_at_def)

subsection \<open>\<open>classify_team\<close>\<close>

text \<open>
  C4. A record whose \<open>team\<close> is present and not empty is classified as that team,
  whatever its title and URLs contain.
\<close>

theorem classify_team_explicit:
  assumes "team j = Some t" and "t \<noteq> []"
  shows "classify_team j = t"
  using assms by (simp add: classify_team_def truthy_def get_default_def)

theorem classify_team_explicit_witness:
  "classify_team (empty_job\<lparr>title := Some ''Atlanta Dream Ticket Sales'',
       url := Some ''/basketball-jobs/atlanta-dream/ticket-sales'', team := Some ''Chicago Sky''\<rparr>)
     = ''Chicago Sky''
   \<and> match_team (lower (search_text (empty_job\<lparr>title := Some ''Atlanta Dream Ticket Sales'',
       url := Some ''/basketball-jobs/atlanta-dream/ticket-sales'', team := Some ''Chicago Sky''\<rparr>)))
        WNBA_TEAMS = Some ''Atlanta Dream''"
proof -
  have "match_team (lower (search_text (empty_job\<lparr>title := Some ''Atlanta Dream Ticket Sales'',
       url := Some ''/basketball-jobs/atlanta-dream/ticket-sales'', team := Some ''Chicago Sky''\<rparr>)))
        WNBA_TEAMS = Some ''Atlanta Dream''"
    by code_simp
  then show ?thesis
    using classify_team_explicit
      [of "empty_job\<lparr>title := Some ''Atlanta Dream Ticket Sales'',
         url := Some ''/basketball-jobs/atlanta-dream/ticket-sales'', team := Some ''Chicago Sky''\<rparr>"
        "''Chicago Sky''"]
    by (simp add: empty_job_def)
qed

lemma match_team_None:
  "(\<forall>t \<in> set teams. \<not> contains (lower t) text \<and> \<not> contains (team_slug t) text)
     \<Longrightarrow> match_team text teams = None"
  by (induction teams) auto

text \<open>
  C5 (as the code has it). For a record with no team, or an empty one, whose search text
  (title, original_url and url joined by single blanks, lower-cased) contains no roster
  entry, neither lower-cased nor as a slug, \<open>classify_team\<close> returns the fixed string
  \<open>Unknown / WNBA General\<close>.
\<close>

theorem classify_team_sentinel:
  assumes "team j = None \<or> team j = Some []"
    and "\<forall>t \<in> set WNBA_TEAMS.
           \<not> contains (lower t) (lower (search_text j))
           \<and> \<not> contains (team_slug t) (lower (search_text j))"
  shows "classify_team j = ''Unknown / WNBA General''"
proof -
  from assms(1) have "\<not> truthy (team j)"
    by (auto simp: truthy_def)
  moreover from assms(2) have "match_team (lower (search_text j)) WNBA_TEAMS = None"
    by (rule match_team_None)
  ultimately show ?thesis
    by (simp add: classify_team_def)
qed

theorem classify_team_sentinel_witness:
  "classify_team (empty_job\<lparr>title := Some ''Data Analyst'', url := Some ''/opening/42''\<rparr>)
     = ''Unknown / WNBA General''"
proof -
  let ?j = "empty_job\<lparr>title := Some ''Data Analyst'', url := Some ''/opening/42''\<rparr>"
  have t: "team ?j = None \<or> team ?j = Some []"
    by (simp add: empty_job_def)
  have "list_all (\<lambda>t. \<not> contains (lower t) (lower (search_text ?j))
           \<and> \<not> contains (team_slug t) (lower (search_text ?j))) WNBA_TEAMS"
    by code_simp
  then have n: "\<forall>t \<in> set WNBA_TEAMS.
           \<not> contains (lower t) (lower (search_text ?j))
           \<and> \<not> contains (team_slug t) (lower (search_text ?j))"
    by (simp add: list_all_iff)
  from classify_team_sentinel [OF t n] show ?thesis .
qed

text \<open>
  C5 as stated fails: the string returned when no roster entry matches is not
  \<open>unclassified\<close>.
\<close>

theorem classify_team_sentinel_is_not_unclassified:
  "team (empty_job\<lparr>title := Some ''Data Analyst'', url := Some ''/opening/42''\<rparr>) = None
   \<and> match_team (lower (search_text (empty_job\<lparr>title := Some ''Data Analyst'', url := Some ''/opening/42''\<rparr>)))
        WNBA_TEAMS = None
   \<and> classify_team (empty_job\<lparr>title := Some ''Data Analyst'', url := Some ''/opening/42''\<rparr>)
        \<noteq> ''unclassified''"
  by code_simp


subsection \<open>\<open>deduplicate_jobs\<close>\<close>

lemma dedup_loop_append:
  "dedup_loop (xs @ ys) seen = dedup_loop ys (dedup_loop xs seen)"
  by (induction xs arbitrary: seen) (auto split: option.splits)

lemma find_snoc:
  "find P (xs @ [x]) = (case find P xs of Some y \<Rightarrow> Some y | None \<Rightarrow> if P x then Some x else None)"
  by (induction xs) auto

lemma dedup_inv_distinct: "dedup_inv xs seen \<Longrightarrow> distinct (map fst seen)"
  unfolding dedup_inv_def by blast

lemma dedup_inv_keys: "dedup_inv xs seen \<Longrightarrow> fst ` set seen = dedup_key ` set xs"
  unfolding dedup_inv_def by blast

lemma dedup_inv_key: "dedup_inv xs seen \<Longrightarrow> map_of seen k = Some r \<Longrightarrow> dedup_key r = k"
  unfolding dedup_inv_def by blast

lemma dedup_inv_first:
  "dedup_inv xs seen \<Longrightarrow> map_of seen k = Some r \<Longrightarrow>
     find (\<lambda>j. dedup_key j = k \<and> job_date j = job_date r) xs = Some r"
  unfolding dedup_inv_def by blast

lemma dedup_inv_least:
  "dedup_inv xs seen \<Longrightarrow> map_of seen k = Some r \<Longrightarrow> j \<in> set xs \<Longrightarrow> dedup_key j = k \<Longrightarrow>
     job_date r \<le> job_date j"
  unfolding dedup_inv_def by blast

lemma map_of_Some_key: "map_of al k = Some v \<Longrightarrow> k \<in> fst ` set al"
  by (metis map_of_eq_None_iff option.distinct(1))

lemma dedup_inv_step_new:
  assumes inv: "dedup_inv xs seen" and new: "map_of seen (dedup_key x) = None"
  shows "dedup_inv (xs @ [x]) (AList.update (dedup_key x) x seen)"
proof -
  from new have "dedup_key x \<notin> fst ` set seen"
    by (simp add: map_of_eq_None_iff)
  then have fresh: "dedup_key x \<notin> dedup_key ` set xs"
    by (simp add: dedup_inv_keys [OF inv])
  then have none: "find (\<lambda>j. dedup_key j = dedup_key x \<and> job_date j = job_date x) xs = None"
    by (auto simp: find_None_iff image_iff)
  show ?thesis
    unfolding dedup_inv_def
  proof (intro conjI allI impI)
    show "distinct (map fst (AList.update (dedup_key x) x seen))"
      using dedup_inv_distinct [OF inv] by (simp add: distinct_update)
    show "fst ` set (AList.update (dedup_key x) x seen) = dedup_key ` set (xs @ [x])"
      using dedup_inv_keys [OF inv] by (auto simp: dom_update)
  next
    fix k r
    assume m: "map_of (AList.update (dedup_key x) x seen) k = Some r"
    show "dedup_key r = k"
      using m dedup_inv_key [OF inv, of k r] by (auto simp: update_conv' split: if_splits)
    show "find (\<lambda>j. dedup_key j = k \<and> job_date j = job_date r) (xs @ [x]) = Some r"
    proof (cases "k = dedup_key x")
      case True
      with m have "r = x" by (simp add: update_conv')
      with True none show ?thesis by (simp add: find_snoc)
    next
      case False
      with m have "map_of seen k = Some r" by (simp add: update_conv')
      then have "find (\<lambda>j. dedup_key j = k \<and> job_date j = job_date r) xs = Some r"
        by (rule dedup_inv_first [OF inv])
      then show ?thesis by (simp add: find_snoc)
    qed
    show "\<forall>j\<in>set (xs @ [x]). dedup_key j = k \<longrightarrow> job_date r \<le> job_date j"
    proof (cases "k = dedup_key x")
      case True
      with m have "r = x" by (simp add: update_conv')
      with True fresh show ?thesis by (auto simp: image_iff)
    next
      case False
      with m have "map_of seen k = Some r" by (simp add: update_conv')
      then have "\<forall>j\<in>set xs. dedup_key j = k \<longrightarrow> job_date r \<le> job_date j"
        using dedup_inv_least [OF inv] by blast
      with False show ?thesis by auto
    qed
  qed
qed

lemma dedup_inv_step_earlier:
  assumes inv: "dedup_inv xs seen" and old: "map_of seen (dedup_key x) = Some existing"
    and lt: "job_date x < job_date existing"
  shows "dedup_inv (xs @ [x]) (AList.update (dedup_key x) x seen)"
proof -
  have least: "\<forall>j\<in>set xs. dedup_key j = dedup_key x \<longrightarrow> job_date existing \<le> job_date j"
    using dedup_inv_least [OF inv old] by blast
  with lt have later: "\<forall>j\<in>set xs. dedup_key j = dedup_key x \<longrightarrow> job_date x < job_date j"
    by auto
  then have none: "find (\<lambda>j. dedup_key j = dedup_key x \<and> job_date j = job_date x) xs = None"
    by (auto simp: find_None_iff)
  have known: "dedup_key x \<in> dedup_key ` set xs"
    using map_of_Some_key [OF old] by (simp add: dedup_inv_keys [OF inv])
  show ?thesis
    unfolding dedup_inv_def
  proof (intro conjI allI impI)
    show "distinct (map fst (AList.update (dedup_key x) x seen))"
      using dedup_inv_distinct [OF inv] by (simp add: distinct_update)
    show "fst ` set (AList.update (dedup_key x) x seen) = dedup_key ` set (xs @ [x])"
      using dedup_inv_keys [OF inv] known by (auto simp: dom_update)
  next
    fix k r
    assume m: "map_of (AList.update (dedup_key x) x seen) k = Some r"
    show "dedup_key r = k"
      using m dedup_inv_key [OF inv, of k r] by (auto simp: update_conv' split: if_splits)
    show "find (\<lambda>j. dedup_key j = k \<and> job_date j = job_date r) (xs @ [x]) = Some r"
    proof (cases "k = dedup_key x")
      case True
      with m have "r = x" by (simp add: update_conv')
      with True none show ?thesis by (simp add: find_snoc)
    next
      case False
      with m have "map_of seen k = Some r" by (simp add: update_conv')
      then have "find (\<lambda>j. dedup_key j = k \<and> job_date j = job_date r) xs = Some r"
        by (rule dedup_inv_first [OF inv])
      then show ?thesis by (simp add: find_snoc)
    qed
    show "\<forall>j\<in>set (xs @ [x]). dedup_key j = k \<longrightarrow> job_date r \<le> job_date j"
    proof (cases "k = dedup_key x")
      case True
      with m have "r = x" by (simp add: update_conv')
      with True later show ?thesis by auto
    next
      case False
      with m have "map_of seen k = Some r" by (simp add: update_conv')
      then have "\<forall>j\<in>set xs. dedup_key j = k \<longrightarrow> job_date r \<le> job_date j"
        using dedup_inv_least [OF inv] by blast
      with False show ?thesis by auto
    qed
  qed
qed

lemma dedup_inv_step_keep:
  assumes inv: "dedup_inv xs seen" and old: "map_of seen (dedup_key x) = Some existing"
    and ge: "\<not> job_date x < job_date existing"
  shows "dedup_inv (xs @ [x]) seen"
proof -
  have known: "dedup_key x \<in> dedup_key ` set xs"
    using map_of_Some_key [OF old] by (simp add: dedup_inv_keys [OF inv])
  show ?thesis
    unfolding dedup_inv_def
  proof (intro conjI allI impI)
    show "distinct (map fst seen)"
      by (rule dedup_inv_distinct [OF inv])
    show "fst ` set seen = dedup_key ` set (xs @ [x])"
      using dedup_inv_keys [OF inv] known by auto
  next
    fix k r
    assume m: "map_of seen k = Some r"
    then show "dedup_key r = k"
      by (rule dedup_inv_key [OF inv])
    from m have "find (\<lambda>j. dedup_key j = k \<and> job_date j = job_date r) xs = Some r"
      by (rule dedup_inv_first [OF inv])
    then show "find (\<lambda>j. dedup_key j = k \<and> job_date j = job_date r) (xs @ [x]) = Some r"
      by (simp add: find_snoc)
    have least: "\<forall>j\<in>set xs. dedup_key j = k \<longrightarrow> job_date r \<le> job_date j"
      using dedup_inv_least [OF inv m] by blast
    show "\<forall>j\<in>set (xs @ [x]). dedup_key j = k \<longrightarrow> job_date r \<le> job_date j"
    proof (cases "k = dedup_key x")
      case True
      with m old have "r = existing" by simp
      with ge have "job_date r \<le> job_date x" by simp
      with least show ?thesis by auto
    next
      case False
      with least show ?thesis by auto
    qed
  qed
qed

lemma dedup_loop_inv: "dedup_inv xs (dedup_loop xs [])"
proof (induction xs rule: rev_induct)
  case Nil
  show ?case by (simp add: dedup_inv_def)
next
  case (snoc x xs)
  let ?seen = "dedup_loop xs []"
  show ?case
  proof (cases "map_of ?seen (dedup_key x)")
    case None
    then show ?thesis
      using dedup_inv_step_new [OF snoc.IH None] by (simp add: dedup_loop_append)
  next
    case (Some existing)
    show ?thesis
    proof (cases "job_date x < job_date existing")
      case True
      then show ?thesis
        using dedup_inv_step_earlier [OF snoc.IH Some True] Some by (simp add: dedup_loop_append)
    next
      case False
      then show ?thesis
        using dedup_inv_step_keep [OF snoc.IH Some False] Some by (simp add: dedup_loop_append)
    qed
  qed
qed

lemma deduplicate_jobs_member:
  assumes "r \<in> set (deduplicate_jobs js)"
  shows "map_of (dedup_loop js []) (dedup_key r) = Some r"
proof -
  from assms obtain k where m: "(k, r) \<in> set (dedup_loop js [])"
    by (auto simp: deduplicate_jobs_def)
  then have s: "map_of (dedup_loop js []) k = Some r"
    using dedup_inv_distinct [OF dedup_loop_inv] by simp
  from dedup_inv_key [OF dedup_loop_inv s] s show ?thesis by simp
qed

lemma deduplicate_jobs_keys:
  "map dedup_key (deduplicate_jobs js) = map fst (dedup_loop js [])"
proof -
  have "dedup_key (snd p) = fst p" if "p \<in> set (dedup_loop js [])" for p
  proof -
    from that have "map_of (dedup_loop js []) (fst p) = Some (snd p)"
      using dedup_inv_distinct [OF dedup_loop_inv] by simp
    then show ?thesis by (rule dedup_inv_key [OF dedup_loop_inv])
  qed
  then show ?thesis by (simp add: deduplicate_jobs_def)
qed

lemma deduplicate_jobs_least:
  assumes "r \<in> set (deduplicate_jobs js)" and "j \<in> set js" and "dedup_key j = dedup_key r"
  shows "job_date r \<le> job_date j"
  using dedup_inv_least [OF dedup_loop_inv deduplicate_jobs_member [OF assms(1)] assms(2,3)] .

lemma deduplicate_jobs_first:
  assumes "r \<in> set (deduplicate_jobs js)"
  shows "find (\<lambda>j. dedup_key j = dedup_key r \<and> job_date j = job_date r) js = Some r"
  using dedup_inv_first [OF dedup_loop_inv deduplicate_jobs_member [OF assms]] .

lemma deduplicate_jobs_subset:
  assumes "r \<in> set (deduplicate_jobs js)"
  shows "r \<in> set js"
  using deduplicate_jobs_first [OF assms] by (auto simp: find_Some_iff)

lemma deduplicate_jobs_key_set:
  "dedup_key ` set (deduplicate_jobs js) = dedup_key ` set js"
proof -
  have "dedup_key ` set (deduplicate_jobs js) = set (map dedup_key (deduplicate_jobs js))"
    by simp
  also have "\<dots> = fst ` set (dedup_loop js [])"
    by (simp only: deduplicate_jobs_keys set_map)
  also have "\<dots> = dedup_key ` set js"
    by (rule dedup_inv_keys [OF dedup_loop_inv])
  finally show ?thesis .
qed

lemma deduplicate_jobs_pair:
  assumes k: "dedup_key a = dedup_key b" and lt: "job_date b < job_date a"
  shows "deduplicate_jobs [a, b] = [b]" and "deduplicate_jobs [b, a] = [b]"
proof -
  from lt have nlt: "\<not> job_date a < job_date b"
    by (simp add: not_less less_imp_le)
  show "deduplicate_jobs [a, b] = [b]"
    by (simp add: deduplicate_jobs_def k lt)
  show "deduplicate_jobs [b, a] = [b]"
    by (simp add: deduplicate_jobs_def k nlt)
qed

text \<open>
  C2 (as the code has it). The key of a record is its title, lower-cased and then
  trimmed, paired with the lower-cased result of \<open>classify_team\<close> (which is not
  trimmed). After deduplication the keys of the surviving records are pairwise distinct
  and are exactly the keys of the input; every surviving record is an input record whose
  \<open>snapshot_date\<close> (read as \<open>9999\<close> when absent) is the smallest among the input
  records with its key, and it is the first input record with that key and that date.
  Two records with the same key and the dates 2024-01-10 and 2023-11-02 collapse, in
  either order, to the one dated 2023-11-02.
\<close>

theorem deduplicate_jobs_earliest_per_key:
  "distinct (map dedup_key (deduplicate_jobs js)) \<and>
   dedup_key ` set (deduplicate_jobs js) = dedup_key ` set js \<and>
   (\<forall>r \<in> set (deduplicate_jobs js).
      r \<in> set js \<and>
      (\<forall>j \<in> set js. dedup_key j = dedup_key r \<longrightarrow> job_date r \<le> job_date j) \<and>
      find (\<lambda>j. dedup_key j = dedup_key r \<and> job_date j = job_date r) js = Some r) \<and>
   (dedup_key a = dedup_key b \<and> snapshot_date a = Some ''2024-01-10''
      \<and> snapshot_date b = Some ''2023-11-02'' \<longrightarrow>
      deduplicate_jobs [a, b] = [b] \<and> deduplicate_jobs [b, a] = [b])"
proof -
  have d: "distinct (map dedup_key (deduplicate_jobs js))"
    using dedup_inv_distinct [OF dedup_loop_inv, of js] by (simp only: deduplicate_jobs_keys)
  have p: "deduplicate_jobs [a, b] = [b] \<and> deduplicate_jobs [b, a] = [b]"
    if "dedup_key a = dedup_key b" "snapshot_date a = Some ''2024-01-10''"
      "snapshot_date b = Some ''2023-11-02''"
  proof -
    from that(2,3) have "job_date b < job_date a"
      by (simp add: job_date_def get_default_def)
    with that(1) show ?thesis
      using deduplicate_jobs_pair by blast
  qed
  have e: "r \<in> set js \<and>
      (\<forall>j \<in> set js. dedup_key j = dedup_key r \<longrightarrow> job_date r \<le> job_date j) \<and>
      find (\<lambda>j. dedup_key j = dedup_key r \<and> job_date j = job_date r) js = Some r"
    if "r \<in> set (deduplicate_jobs js)" for r
    using deduplicate_jobs_subset [OF that] deduplicate_jobs_least [OF that]
      deduplicate_jobs_first [OF that] by blast
  show ?thesis
  proof (intro conjI ballI impI)
    show "distinct (map dedup_key (deduplicate_jobs js))" by (rule d)
    show "dedup_key ` set (deduplicate_jobs js) = dedup_key ` set js"
      by (rule deduplicate_jobs_key_set)
  qed (use e p in blast)+
qed

lemma deduplicate_jobs_least_jobs:
  "set (deduplicate_jobs xs) \<subseteq> least_jobs (set xs)"
  using deduplicate_jobs_subset deduplicate_jobs_least by (auto simp: least_jobs_def)

lemma least_jobs_represented:
  assumes "m \<in> least_jobs (set xs)"
  shows "\<exists>r \<in> set (deduplicate_jobs xs). dedup_key r = dedup_key m \<and> job_date r = job_date m"
proof -
  from assms have mx: "m \<in> set xs"
    and ml: "\<And>j. j \<in> set xs \<Longrightarrow> dedup_key j = dedup_key m \<Longrightarrow> job_date m \<le> job_date j"
    by (auto simp: least_jobs_def)
  from mx have "dedup_key m \<in> dedup_key ` set (deduplicate_jobs xs)"
    by (simp add: deduplicate_jobs_key_set)
  then obtain r where r: "r \<in> set (deduplicate_jobs xs)" and k: "dedup_key r = dedup_key m"
    by (auto simp: image_iff)
  have "job_date r \<le> job_date m"
    using deduplicate_jobs_least [OF r mx] k by simp
  moreover have "job_date m \<le> job_date r"
    using ml [OF deduplicate_jobs_subset [OF r] k] .
  ultimately have "job_date r = job_date m" by simp
  with r k show ?thesis by blast
qed

lemma deduplicate_jobs_dates:
  "(\<lambda>r. (dedup_key r, job_date r)) ` set (deduplicate_jobs xs)
     = (\<lambda>r. (dedup_key r, job_date r)) ` least_jobs (set xs)"
proof (intro equalityI subsetI)
  fix p
  assume "p \<in> (\<lambda>r. (dedup_key r, job_date r)) ` set (deduplicate_jobs xs)"
  then show "p \<in> (\<lambda>r. (dedup_key r, job_date r)) ` least_jobs (set xs)"
    using deduplicate_jobs_least_jobs [of xs] by auto
next
  fix p
  assume "p \<in> (\<lambda>r. (dedup_key r, job_date r)) ` least_jobs (set xs)"
  then obtain m where m: "m \<in> least_jobs (set xs)" and p: "p = (dedup_key m, job_date m)"
    by auto
  from least_jobs_represented [OF m] obtain r where "r \<in> set (deduplicate_jobs xs)"
    and "dedup_key r = dedup_key m" and "job_date r = job_date m"
    by blast
  then show "p \<in> (\<lambda>r. (dedup_key r, job_date r)) ` set (deduplicate_jobs xs)"
    unfolding p by (intro image_eqI [where x = r]) simp_all
qed

lemma deduplicate_jobs_no_ties:
  assumes "\<forall>a \<in> set xs. \<forall>b \<in> set xs. dedup_key a = dedup_key b \<and> job_date a = job_date b \<longrightarrow> a = b"
  shows "set (deduplicate_jobs xs) = least_jobs (set xs)"
proof (intro equalityI subsetI)
  fix m
  assume m: "m \<in> least_jobs (set xs)"
  from least_jobs_represented [OF m] obtain r where r: "r \<in> set (deduplicate_jobs xs)"
    and k: "dedup_key r = dedup_key m" and d: "job_date r = job_date m"
    by blast
  from m have "m \<in> set xs" by (simp add: least_jobs_def)
  with assms deduplicate_jobs_subset [OF r] k d have "r = m" by blast
  with r show "m \<in> set (deduplicate_jobs xs)" by simp
next
  fix r
  assume "r \<in> set (deduplicate_jobs xs)"
  then show "r \<in> least_jobs (set xs)"
    using deduplicate_jobs_least_jobs by blast
qed

text \<open>
  C8 (as the code has it). For every list of job records and every permutation of it,
  deduplication keeps the same keys with the same surviving \<open>snapshot_date\<close> for each
  key; and when no two different input records share both key and date, it keeps the
  same set of records.
\<close>

theorem deduplicate_jobs_permutation:
  assumes "mset ys = mset xs"
  shows "(\<lambda>r. (dedup_key r, job_date r)) ` set (deduplicate_jobs ys)
           = (\<lambda>r. (dedup_key r, job_date r)) ` set (deduplicate_jobs xs)
         \<and> ((\<forall>a \<in> set xs. \<forall>b \<in> set xs.
               dedup_key a = dedup_key b \<and> job_date a = job_date b \<longrightarrow> a = b)
             \<longrightarrow> set (deduplicate_jobs ys) = set (deduplicate_jobs xs))"
proof -
  from assms have s: "set ys = set xs"
    by (rule mset_eq_setD)
  have "(\<lambda>r. (dedup_key r, job_date r)) ` set (deduplicate_jobs ys)
          = (\<lambda>r. (dedup_key r, job_date r)) ` set (deduplicate_jobs xs)"
    by (simp only: deduplicate_jobs_dates s)
  moreover have "set (deduplicate_jobs ys) = set (deduplicate_jobs xs)"
    if "\<forall>a \<in> set xs. \<forall>b \<in> set xs. dedup_key a = dedup_key b \<and> job_date a = job_date b \<longrightarrow> a = b"
    using that deduplicate_jobs_no_ties [of xs] deduplicate_jobs_no_ties [of ys] s by simp
  ultimately show ?thesis by blast
qed

theorem deduplicate_jobs_earliest_per_key_witness:
  "dedup_key (posting ''Assistant Coach'' ''Chicago Sky'' ''2024-01-10'' ''/a'')
     = dedup_key (posting '' assistant coach'' ''chicago sky'' ''2023-11-02'' ''/b'')
   \<and> deduplicate_jobs
        [posting ''Assistant Coach'' ''Chicago Sky'' ''2024-01-10'' ''/a'',
         posting '' assistant coach'' ''chicago sky'' ''2023-11-02'' ''/b'']
      = [posting '' assistant coach'' ''chicago sky'' ''2023-11-02'' ''/b'']
   \<and> job_date (posting '' assistant coach'' ''chicago sky'' ''2023-11-02'' ''/b'')
      \<le> job_date (posting ''Assistant Coach'' ''Chicago Sky'' ''2024-01-10'' ''/a'')
   \<and> find (\<lambda>j. dedup_key j = dedup_key (posting '' assistant coach'' ''chicago sky'' ''2023-11-02'' ''/b'')
               \<and> job_date j = job_date (posting '' assistant coach'' ''chicago sky'' ''2023-11-02'' ''/b''))
        [posting ''Assistant Coach'' ''Chicago Sky'' ''2024-01-10'' ''/a'',
         posting '' assistant coach'' ''chicago sky'' ''2023-11-02'' ''/b'']
      = Some (posting '' assistant coach'' ''chicago sky'' ''2023-11-02'' ''/b'')"
proof -
  let ?a = "posting ''Assistant Coach'' ''Chicago Sky'' ''2024-01-10'' ''/a''"
  let ?b = "posting '' assistant coach'' ''chicago sky'' ''2023-11-02'' ''/b''"
  have k: "dedup_key ?a = dedup_key ?b"
    by code_simp
  have da: "snapshot_date ?a = Some ''2024-01-10''"
    by (simp add: posting_def)
  have db: "snapshot_date ?b = Some ''2023-11-02''"
    by (simp add: posting_def)
  note t = deduplicate_jobs_earliest_per_key [of "[?a, ?b]" ?a ?b]
  from t k da db have r: "deduplicate_jobs [?a, ?b] = [?b]"
    by blast
  have mem: "?b \<in> set (deduplicate_jobs [?a, ?b])"
    by (simp only: r list.set_intros(1))
  from t mem
  have l: "\<forall>j \<in> set [?a, ?b]. dedup_key j = dedup_key ?b \<longrightarrow> job_date ?b \<le> job_date j"
    by blast
  from t mem
  have f: "find (\<lambda>j. dedup_key j = dedup_key ?b \<and> job_date j = job_date ?b) [?a, ?b] = Some ?b"
    by blast
  have "?a \<in> set [?a, ?b]"
    by (rule list.set_intros(1))
  with l k have "job_date ?b \<le> job_date ?a"
    by blast
  with k r f show ?thesis by blast
qed

text \<open>
  C2 as stated fails: the team part of the key is lower-cased but not trimmed, so two
  records whose lower-cased, trimmed titles and teams agree both survive when the teams
  differ by a trailing blank.
\<close>

theorem deduplicate_jobs_untrimmed_team:
  "deduplicate_jobs
     [posting ''Assistant Coach'' ''Chicago Sky'' ''2024-01-10'' ''/a'',
      posting ''Assistant Coach'' ''Chicago Sky '' ''2023-11-02'' ''/a'']
   = [posting ''Assistant Coach'' ''Chicago Sky'' ''2024-01-10'' ''/a'',
      posting ''Assistant Coach'' ''Chicago Sky '' ''2023-11-02'' ''/a'']
   \<and> strip (lower ''Chicago Sky'') = strip (lower ''Chicago Sky '')"
  by code_simp

theorem deduplicate_jobs_permutation_witness:
  "mset [posting ''Coach'' ''Chicago Sky'' ''2023-11-02'' ''/b'',
         posting ''Coach'' ''Chicago Sky'' ''2024-01-10'' ''/a'']
     = mset [posting ''Coach'' ''Chicago Sky'' ''2024-01-10'' ''/a'',
             posting ''Coach'' ''Chicago Sky'' ''2023-11-02'' ''/b'']
   \<and> set (deduplicate_jobs [posting ''Coach'' ''Chicago Sky'' ''2023-11-02'' ''/b'',
                            posting ''Coach'' ''Chicago Sky'' ''2024-01-10'' ''/a''])
     = set (deduplicate_jobs [posting ''Coach'' ''Chicago Sky'' ''2024-01-10'' ''/a'',
                              posting ''Coach'' ''Chicago Sky'' ''2023-11-02'' ''/b''])
   \<and> deduplicate_jobs [posting ''Coach'' ''Chicago Sky'' ''2024-01-10'' ''/a'',
                        posting ''Coach'' ''Chicago Sky'' ''2023-11-02'' ''/b'']
     = [posting ''Coach'' ''Chicago Sky'' ''2023-11-02'' ''/b'']"
proof -
  let ?a = "posting ''Coach'' ''Chicago Sky'' ''2024-01-10'' ''/a''"
  let ?b = "posting ''Coach'' ''Chicago Sky'' ''2023-11-02'' ''/b''"
  have m: "mset [?b, ?a] = mset [?a, ?b]" by simp
  have d: "job_date ?a \<noteq> job_date ?b" by (simp add: job_date_def posting_def get_default_def)
  then have t: "\<forall>a \<in> set [?a, ?b]. \<forall>b \<in> set [?a, ?b].
      dedup_key a = dedup_key b \<and> job_date a = job_date b \<longrightarrow> a = b"
    by auto
  have r: "deduplicate_jobs [?a, ?b] = [?b]" by code_simp
  from deduplicate_jobs_permutation [OF m] t m r show ?thesis by blast
qed

text \<open>
  C8 as stated fails: two records with the same key and the same date are a tie, the one
  that arrives first is kept, and the two orders of the list keep different records.
\<close>

theorem deduplicate_jobs_order_sensitive:
  "deduplicate_jobs [posting ''Coach'' ''Chicago Sky'' ''2023-11-02'' ''/a'',
                     posting ''Coach'' ''Chicago Sky'' ''2023-11-02'' ''/b'']
     = [posting ''Coach'' ''Chicago Sky'' ''2023-11-02'' ''/a'']
   \<and> deduplicate_jobs [posting ''Coach'' ''Chicago Sky'' ''2023-11-02'' ''/b'',
                       posting ''Coach'' ''Chicago Sky'' ''2023-11-02'' ''/a'']
     = [posting ''Coach'' ''Chicago Sky'' ''2023-11-02'' ''/b'']
   \<and> posting ''Coach'' ''Chicago Sky'' ''2023-11-02'' ''/a''
       \<noteq> posting ''Coach'' ''Chicago Sky'' ''2023-11-02'' ''/b''"
  by code_simp

subsection \<open>\<open>extract_jobs_from_html\<close>\<close>

lemma start_capture_jobs: "jobs (start_capture t p) = jobs p"
  by (simp add: start_capture_def)

lemma handle_starttag_jobs:
  "handle_starttag tag attrs p = Inl p' \<or> handle_starttag tag attrs p = Inr p' \<Longrightarrow> jobs p' = jobs p"
  by (auto simp: handle_starttag_def Let_def start_capture_def split: option.splits if_splits)

lemma finish_capture_jobs: "jobs (finish_capture p) = jobs p"
  by (simp add: finish_capture_def Let_def)

lemma close_job_card_jobs:
  "list_all has_title_or_url (jobs p) \<Longrightarrow> list_all has_title_or_url (jobs (close_job_card p))"
  by (simp add: close_job_card_def Let_def has_title_or_url_def)

lemma handle_endtag_jobs:
  "list_all has_title_or_url (jobs p) \<Longrightarrow> list_all has_title_or_url (jobs (handle_endtag tag p))"
  by (simp add: handle_endtag_def Let_def close_job_card_jobs finish_capture_jobs)

lemma handle_data_jobs: "jobs (handle_data d p) = jobs p"
  by (simp add: handle_data_def)

lemma feed_jobs:
  "list_all has_title_or_url (jobs p) \<Longrightarrow> list_all has_title_or_url (jobs (feed events p))"
proof (induction events p rule: feed.induct)
  case (1 p)
  then show ?case by simp
next
  case (2 tag attrs rest p)
  show ?case
  proof (cases "handle_starttag tag attrs p")
    case (Inl p')
    with handle_starttag_jobs [of tag attrs p p'] "2.prems" show ?thesis by simp
  next
    case (Inr p')
    with handle_starttag_jobs [of tag attrs p p'] "2.prems" "2.IH" [OF Inr] show ?thesis by simp
  qed
next
  case (3 tag rest p)
  then show ?case by (simp add: handle_endtag_jobs)
next
  case (4 d rest p)
  then show ?case by (simp add: handle_data_jobs)
qed

lemma fallback_job_fields: "title (fallback_job t h) = Some t" "url (fallback_job t h) = Some h"
  by (simp_all add: fallback_job_def Let_def empty_job_def)

lemma link_fallback_titles: "list_all has_title_or_url (link_fallback links)"
  by (induction links)
     (simp_all add: link_fallback_def has_title_or_url_def fallback_job_fields truthy_def)

lemma regex_fallback_titles: "list_all has_title_or_url (regex_fallback html)"
proof -
  have "list_all has_title_or_url
          (concat (map (\<lambda>(h, inner).
                    if anchor_text inner \<noteq> [] \<and> 3 < length (anchor_text inner)
                    then [fallback_job (anchor_text inner) h] else []) ms))" for ms
    by (induction ms)
       (auto simp: has_title_or_url_def fallback_job_fields truthy_def)
  then show ?thesis by (simp add: regex_fallback_def)
qed

text \<open>
  C9. Every record that \<open>extract_jobs_from_html\<close> returns, from the structural pass,
  from the link fallback or from the pattern fallback, has a non-empty title or a
  non-empty url, for every tokenizer and every document.
\<close>

theorem extract_jobs_from_html_title_or_url:
  "\<forall>j \<in> set (extract_jobs_from_html tokenize html). truthy (title j) \<or> truthy (url j)"
proof -
  have "list_all has_title_or_url (jobs (feed (tokenize html) new_parser))"
    by (rule feed_jobs) (simp add: new_parser_def)
  then have "list_all has_title_or_url (extract_jobs_from_html tokenize html)"
    by (simp add: extract_jobs_from_html_def Let_def link_fallback_titles regex_fallback_titles)
  then show ?thesis
    by (simp add: list_all_iff has_title_or_url_def)
qed

theorem extract_jobs_from_html_title_or_url_witness:
  "extract_jobs_from_html (\<lambda>_. card_events) []
     = [empty_job\<lparr>title := Some ''Ticket Sales'', url := Some ''/basketball-jobs/chicago-sky/1'',
                  team := Some ''Chicago Sky''\<rparr>]
   \<and> extract_jobs_from_html (\<lambda>_. link_events) []
     = [empty_job\<lparr>title := Some ''Ticket Sales'', url := Some ''/basketball-jobs/chicago-sky/1'',
                  team := Some ''Chicago Sky''\<rparr>]
   \<and> extract_jobs_from_html (\<lambda>_. []) staff_html
     = [empty_job\<lparr>title := Some ''Home Game Staff'', url := Some ''/basketball-jobs/chicago-sky/7'',
                  team := Some ''Chicago Sky''\<rparr>]
   \<and> (truthy (title (hd (extract_jobs_from_html (\<lambda>_. card_events) [])))
        \<or> truthy (url (hd (extract_jobs_from_html (\<lambda>_. card_events) []))))"
proof -
  have "extract_jobs_from_html (\<lambda>_. card_events) []
     = [empty_job\<lparr>title := Some ''Ticket Sales'', url := Some ''/basketball-jobs/chicago-sky/1'',
                  team := Some ''Chicago Sky''\<rparr>]"
    by code_simp
  moreover have "extract_jobs_from_html (\<lambda>_. link_events) []
     = [empty_job\<lparr>title := Some ''Ticket Sales'', url := Some ''/basketball-jobs/chicago-sky/1'',
                  team := Some ''Chicago Sky''\<rparr>]"
    by code_simp
  moreover have "extract_jobs_from_html (\<lambda>_. []) staff_html
     = [empty_job\<lparr>title := Some ''Home Game Staff'', url := Some ''/basketball-jobs/chicago-sky/7'',
                  team := Some ''Chicago Sky''\<rparr>]"
    by code_simp
  ultimately show ?thesis
    using extract_jobs_from_html_title_or_url [of "\<lambda>_. card_events" "[]"] by simp
qed

text \<open>
  C3. When the structural pass finds no record and the link fallback yields none, the
  result of \<open>extract_jobs_from_html\<close> is exactly the result of the pattern fallback on
  the document; in the two other cases the result is the structural records,
  respectively the link fallback's records, and the pattern fallback is not applied.
\<close>

theorem extract_jobs_from_html_fallback_order:
  "(jobs (feed (tokenize html) new_parser) = []
      \<and> link_fallback (all_links (feed (tokenize html) new_parser)) = []
    \<longrightarrow> extract_jobs_from_html tokenize html = regex_fallback html)
   \<and> (jobs (feed (tokenize html) new_parser) \<noteq> []
    \<longrightarrow> extract_jobs_from_html tokenize html = jobs (feed (tokenize html) new_parser))
   \<and> (jobs (feed (tokenize html) new_parser) = []
      \<and> link_fallback (all_links (feed (tokenize html) new_parser)) \<noteq> []
    \<longrightarrow> extract_jobs_from_html tokenize html
          = link_fallback (all_links (feed (tokenize html) new_parser)))"
proof -
  have "link_fallback [] = []"
    by (simp add: link_fallback_def)
  then show ?thesis
    by (auto simp: extract_jobs_from_html_def Let_def)
qed

theorem extract_jobs_from_html_fallback_order_witness:
  "jobs (feed staff_events new_parser) = []
   \<and> all_links (feed staff_events new_parser)
       = [\<lparr>link_href = ''/basketball-jobs/chicago-sky/7'', link_text = ''Home Game Staff''\<rparr>]
   \<and> link_fallback (all_links (feed staff_events new_parser)) = []
   \<and> regex_fallback staff_html
       = [empty_job\<lparr>title := Some ''Home Game Staff'', url := Some ''/basketball-jobs/chicago-sky/7'',
                    team := Some ''Chicago Sky''\<rparr>]
   \<and> extract_jobs_from_html (\<lambda>_. staff_events) staff_html = regex_fallback staff_html
   \<and> jobs (feed card_events new_parser) \<noteq> []
   \<and> extract_jobs_from_html (\<lambda>_. card_events) staff_html = jobs (feed card_events new_parser)
   \<and> jobs (feed link_events new_parser) = []
   \<and> link_fallback (all_links (feed link_events new_parser)) \<noteq> []
   \<and> extract_jobs_from_html (\<lambda>_. link_events) staff_html
       = link_fallback (all_links (feed link_events new_parser))"
proof -
  have j: "jobs (feed staff_events new_parser) = []"
    by code_simp
  have a: "all_links (feed staff_events new_parser)
       = [\<lparr>link_href = ''/basketball-jobs/chicago-sky/7'', link_text = ''Home Game Staff''\<rparr>]"
    by code_simp
  have l: "link_fallback (all_links (feed staff_events new_parser)) = []"
    by code_simp
  have r: "regex_fallback staff_html
       = [empty_job\<lparr>title := Some ''Home Game Staff'', url := Some ''/basketball-jobs/chicago-sky/7'',
                    team := Some ''Chicago Sky''\<rparr>]"
    by code_simp
  have c: "jobs (feed card_events new_parser) \<noteq> []"
    by code_simp
  have k: "jobs (feed link_events new_parser) = []"
    by code_simp
  have f: "link_fallback (all_links (feed link_events new_parser)) \<noteq> []"
    by code_simp
  from extract_jobs_from_html_fallback_order [of "\<lambda>_. staff_events" staff_html]
    extract_jobs_from_html_fallback_order [of "\<lambda>_. card_events" staff_html]
    extract_jobs_from_html_fallback_order [of "\<lambda>_. link_events" staff_html]
    j a l r c k f
  show ?thesis by simp
qed

subsection \<open>\<open>_regex_fallback\<close>\<close>

text \<open>
  C10. Every record of the pattern fallback comes from a match of the anchor pattern
  whose inner text, with nested tags removed and surrounding whitespace stripped, is
  longer than 3 characters, and that text is its title; a document all of whose matched
  anchors have such a text of length at most 3 yields the empty list.
\<close>

theorem regex_fallback_title_longer_than_3:
  "(\<forall>j \<in> set (regex_fallback html).
      \<exists>h inner. (h, inner) \<in> set (finditer html) \<and> url j = Some h
        \<and> title j = Some (anchor_text inner) \<and> 3 < length (anchor_text inner))
   \<and> ((\<forall>(h, inner) \<in> set (finditer html). length (anchor_text inner) \<le> 3)
        \<longrightarrow> regex_fallback html = [])"
proof -
  have a: "\<exists>h inner. (h, inner) \<in> set (finditer html) \<and> url j = Some h
        \<and> title j = Some (anchor_text inner) \<and> 3 < length (anchor_text inner)"
    if "j \<in> set (regex_fallback html)" for j
    using that by (auto simp: regex_fallback_def fallback_job_fields split: if_splits)
  have b: "regex_fallback html = []"
    if "\<forall>(h, inner) \<in> set (finditer html). length (anchor_text inner) \<le> 3"
    using that by (auto simp: regex_fallback_def)
  from a b show ?thesis by blast
qed

theorem regex_fallback_title_longer_than_3_witness:
  "finditer short_html
     = [(''/basketball-jobs/chicago-sky/1'', ''Go''), (''/basketball-jobs/x/2'', ''<b> GM </b>'')]
   \<and> anchor_text ''<b> GM </b>'' = ''GM''
   \<and> regex_fallback short_html = []
   \<and> regex_fallback staff_html
       = [empty_job\<lparr>title := Some ''Home Game Staff'', url := Some ''/basketball-jobs/chicago-sky/7'',
                    team := Some ''Chicago Sky''\<rparr>]
   \<and> 3 < length ''Home Game Staff''"
proof -
  have f: "finditer short_html
     = [(''/basketball-jobs/chicago-sky/1'', ''Go''), (''/basketball-jobs/x/2'', ''<b> GM </b>'')]"
    by code_simp
  have g: "anchor_text ''<b> GM </b>'' = ''GM''" and h: "anchor_text ''Go'' = ''Go''"
    by code_simp+
  have s: "regex_fallback staff_html
       = [empty_job\<lparr>title := Some ''Home Game Staff'', url := Some ''/basketball-jobs/chicago-sky/7'',
                    team := Some ''Chicago Sky''\<rparr>]"
    by code_simp
  have "\<forall>(h, inner) \<in> set (finditer short_html). length (anchor_text inner) \<le> 3"
    by (simp add: f g h)
  with regex_fallback_title_longer_than_3 [of short_html] have e: "regex_fallback short_html = []"
    by blast
  from regex_fallback_title_longer_than_3 [of staff_html] s
  obtain inner where "Some ''Home Game Staff'' = Some (anchor_text inner)"
    and "3 < length (anchor_text inner)"
    by (auto simp: empty_job_def)
  then have "3 < length ''Home Game Staff''"
    by (simp only: option.inject)
  with f g e s show ?thesis by blast
qed

subsection \<open>\<open>clean_wayback_url\<close>\<close>

lemma starts_with_append: "starts_with p s \<Longrightarrow> s = p @ drop (length p) s"
  by (induction p s rule: starts_with.induct) auto

lemma takeWhile_drop_id: "xs = takeWhile P xs @ drop (length (takeWhile P xs)) xs"
  by (metis takeWhile_dropWhile_id dropWhile_eq_drop)

lemma wrapper_at_Nil: "wrapper_at [] = None"
  by (simp add: wrapper_at_def)

lemma search_wrapper_least:
  "wrapper_at (drop k u) = Some g \<Longrightarrow> (\<forall>i<k. wrapper_at (drop i u) = None)
     \<Longrightarrow> search_wrapper u = Some g"
proof (induction u arbitrary: k)
  case Nil
  then show ?case by (simp add: wrapper_at_Nil)
next
  case (Cons c cs)
  show ?case
  proof (cases k)
    case 0
    with Cons.prems(1) show ?thesis by simp
  next
    case (Suc k')
    with Cons.prems(2) have n: "wrapper_at (c # cs) = None"
      by (metis drop0 zero_less_Suc)
    from Cons.prems(1) Suc have a: "wrapper_at (drop k' cs) = Some g" by simp
    have b: "\<forall>i<k'. wrapper_at (drop i cs) = None"
    proof (intro allI impI)
      fix i assume "i < k'"
      with Suc have "Suc i < k" by simp
      with Cons.prems(2) have "wrapper_at (drop (Suc i) (c # cs)) = None" by blast
      then show "wrapper_at (drop i cs) = None" by simp
    qed
    from Cons.IH [OF a b] n show ?thesis by simp
  qed
qed

lemma search_wrapper_None:
  "(\<forall>k. wrapper_at (drop k u) = None) \<Longrightarrow> search_wrapper u = None"
proof (induction u)
  case Nil
  show ?case by simp
next
  case (Cons c cs)
  from Cons.prems have n: "wrapper_at (c # cs) = None"
    by (metis drop0)
  have "\<forall>k. wrapper_at (drop k cs) = None"
  proof
    fix k
    from Cons.prems have "wrapper_at (drop (Suc k) (c # cs)) = None" by blast
    then show "wrapper_at (drop k cs) = None" by simp
  qed
  from Cons.IH [OF this] n show ?case by simp
qed

lemma search_wrapper_position:
  "search_wrapper u = Some g \<Longrightarrow>
     \<exists>k<length u. wrapper_at (drop k u) = Some g \<and> (\<forall>i<k. wrapper_at (drop i u) = None)"
proof (induction u)
  case Nil
  then show ?case by simp
next
  case (Cons c cs)
  show ?case
  proof (cases "wrapper_at (c # cs)")
    case (Some g')
    with Cons.prems have "wrapper_at (drop 0 (c # cs)) = Some g" by simp
    then show ?thesis by (intro exI [of _ 0]) simp
  next
    case None
    with Cons.prems have "search_wrapper cs = Some g" by simp
    from Cons.IH [OF this] obtain k where k: "k < length cs"
      and m: "wrapper_at (drop k cs) = Some g" and l: "\<forall>i<k. wrapper_at (drop i cs) = None"
      by blast
    have "\<forall>i<Suc k. wrapper_at (drop i (c # cs)) = None"
    proof (intro allI impI)
      fix i assume i: "i < Suc k"
      show "wrapper_at (drop i (c # cs)) = None"
      proof (cases i)
        case 0
        with None show ?thesis by simp
      next
        case (Suc i')
        with i l show ?thesis by simp
      qed
    qed
    with k m show ?thesis by (intro exI [of _ "Suc k"]) simp
  qed
qed

lemma wrapper_at_shape:
  assumes "wrapper_at s = Some g"
  shows "\<exists>d w rest. s = ''/web/'' @ d @ w @ ''/'' @ g @ rest
           \<and> d \<noteq> [] \<and> list_all is_digit d \<and> (w = [] \<or> w = ''id_'')
           \<and> list_all not_newline g \<and> (rest = [] \<or> hd rest = CHR 0x0A)
           \<and> ((starts_with ''https://'' g \<and> 8 < length g)
               \<or> (starts_with ''http://'' g \<and> 7 < length g))"
proof -
  define d where "d = takeWhile is_digit (drop 5 s)"
  define s2 where "s2 = drop (length d) (drop 5 s)"
  define w where "w = (if starts_with ''id_'' s2 then ''id_'' else [])"
  define s3 where "s3 = (if starts_with ''id_'' s2 then drop 3 s2 else s2)"
  from assms have sw: "starts_with ''/web/'' s"
    by (auto simp: wrapper_at_def split: if_splits)
  from assms sw have dn: "d \<noteq> []"
    by (auto simp: wrapper_at_def Let_def d_def split: if_splits)
  from assms sw dn obtain c s4 where s3c: "s3 = c # s4" and c: "c = CHR ''/''"
    and g: "g = takeWhile not_newline s4"
    and scheme: "(starts_with ''https://'' g \<and> 8 < length g)
               \<or> (starts_with ''http://'' g \<and> 7 < length g)"
    by (auto simp: wrapper_at_def Let_def d_def s2_def s3_def split: if_splits list.splits)
  define rest where "rest = dropWhile not_newline s4"
  have len: "length ''/web/'' = 5"
    by simp
  have e1: "s = ''/web/'' @ drop 5 s"
    using starts_with_append [OF sw] by (simp only: len)
  have e2: "drop 5 s = d @ s2"
    unfolding d_def s2_def by (rule takeWhile_drop_id)
  have len3: "length ''id_'' = 3"
    by simp
  have e3: "s2 = w @ s3"
  proof (cases "starts_with ''id_'' s2")
    case True
    from starts_with_append [OF True] have "s2 = ''id_'' @ drop 3 s2"
      by (simp only: len3)
    with True show ?thesis
      by (simp only: w_def s3_def if_True)
  next
    case False
    then show ?thesis
      by (simp add: w_def s3_def)
  qed
  have e4: "s4 = g @ rest"
    by (simp add: g rest_def)
  have "s3 = ''/'' @ g @ rest"
    using s3c c e4 by simp
  then have "s2 = w @ ''/'' @ g @ rest"
    using e3 by simp
  then have "drop 5 s = d @ w @ ''/'' @ g @ rest"
    using e2 by simp
  then have shape: "s = ''/web/'' @ d @ w @ ''/'' @ g @ rest"
    by (subst e1) (simp only:)
  have digits: "list_all is_digit d"
    unfolding d_def list_all_iff by (meson set_takeWhileD)
  have opt: "w = [] \<or> w = ''id_''"
    by (simp add: w_def)
  have line: "list_all not_newline g"
    unfolding g list_all_iff by (meson set_takeWhileD)
  have stop: "rest = [] \<or> hd rest = CHR 0x0A"
  proof (cases "rest = []")
    case True
    then show ?thesis by simp
  next
    case False
    then have "\<not> not_newline (hd rest)"
      unfolding rest_def by (rule hd_dropWhile)
    then show ?thesis by (simp add: not_newline_def)
  qed
  from shape dn digits opt line stop scheme show ?thesis by blast
qed

lemma clean_wayback_url_unmatched:
  "search_wrapper u = None \<Longrightarrow> clean_wayback_url u = u"
  by (simp add: clean_wayback_url_def)

lemma wrapper_at_shorter: "wrapper_at s = Some g \<Longrightarrow> length g < length s"
proof -
  assume "wrapper_at s = Some g"
  from wrapper_at_shape [OF this] obtain d w rest
    where "s = ''/web/'' @ d @ w @ ''/'' @ g @ rest"
    by blast
  then have "length s = 5 + length d + length w + 1 + length g + length rest"
    by simp
  then show ?thesis by simp
qed

lemma search_wrapper_shorter: "search_wrapper s = Some g \<Longrightarrow> length g < length s"
proof -
  assume "search_wrapper s = Some g"
  from search_wrapper_position [OF this] obtain k
    where "wrapper_at (drop k s) = Some g"
    by blast
  from wrapper_at_shorter [OF this] show ?thesis by simp
qed

lemma search_wrapper_None_iff:
  "search_wrapper u = None \<longleftrightarrow> (\<forall>k. wrapper_at (drop k u) = None)"
proof
  assume n: "search_wrapper u = None"
  show "\<forall>k. wrapper_at (drop k u) = None"
  proof (rule ccontr)
    assume "\<not> (\<forall>k. wrapper_at (drop k u) = None)"
    then obtain k where k: "wrapper_at (drop k u) \<noteq> None"
      by blast
    define m where "m = (LEAST j. wrapper_at (drop j u) \<noteq> None)"
    have some: "wrapper_at (drop m u) \<noteq> None"
      unfolding m_def using k by (rule LeastI)
    have least: "\<forall>i<m. wrapper_at (drop i u) = None"
      unfolding m_def using not_less_Least by blast
    from some obtain g where "wrapper_at (drop m u) = Some g"
      by blast
    from search_wrapper_least [OF this least] n show False
      by simp
  qed
next
  assume "\<forall>k. wrapper_at (drop k u) = None"
  then show "search_wrapper u = None"
    by (rule search_wrapper_None)
qed

text \<open>
  C7 (as the code has it). The pattern matches at a position of the URL when
  \<open>/web/\<close>, one or more digits, an optional \<open>id_\<close> and a slash stand there, followed
  by \<open>http://\<close> or \<open>https://\<close> and at least one more character of the same line;
  group 1 is the rest of that line from \<open>http\<close> on. A URL with no match at any position
  is returned unchanged. Otherwise the result is group 1 of the match at the leftmost
  matching position: one wrapper is removed, the leftmost one. Hence unwrapping twice
  gives the same as unwrapping once exactly when the unwrapped URL contains no further
  wrapper. The URL \<open>https://web.archive.org/web/20230601000000id_/https://example.com/job/42\<close>
  unwraps to exactly \<open>https://example.com/job/42\<close>, which passes through unchanged.
\<close>

theorem clean_wayback_url_unwraps:
  "(search_wrapper u = None \<longleftrightarrow> (\<forall>k. wrapper_at (drop k u) = None))
   \<and> (search_wrapper u = None \<longrightarrow> clean_wayback_url u = u)
   \<and> (\<forall>k g. wrapper_at (drop k u) = Some g \<and> (\<forall>i<k. wrapper_at (drop i u) = None)
          \<longrightarrow> clean_wayback_url u = g)
   \<and> (\<forall>g. wrapper_at s = Some g \<longrightarrow>
         (\<exists>d w rest. s = ''/web/'' @ d @ w @ ''/'' @ g @ rest
            \<and> d \<noteq> [] \<and> list_all is_digit d \<and> (w = [] \<or> w = ''id_'')
            \<and> list_all not_newline g \<and> (rest = [] \<or> hd rest = CHR 0x0A)
            \<and> ((starts_with ''https://'' g \<and> 8 < length g)
                \<or> (starts_with ''http://'' g \<and> 7 < length g))))
   \<and> (clean_wayback_url (clean_wayback_url u) = clean_wayback_url u
        \<longleftrightarrow> search_wrapper (clean_wayback_url u) = None)
   \<and> clean_wayback_url ''https://web.archive.org/web/20230601000000id_/https://example.com/job/42''
       = ''https://example.com/job/42''
   \<and> clean_wayback_url ''https://example.com/job/42'' = ''https://example.com/job/42''"
proof -
  have leftmost: "clean_wayback_url u = g"
    if "wrapper_at (drop k u) = Some g" "\<forall>i<k. wrapper_at (drop i u) = None" for k g
    using search_wrapper_least [OF that] by (simp add: clean_wayback_url_def)
  have e1: "clean_wayback_url ''https://web.archive.org/web/20230601000000id_/https://example.com/job/42''
       = ''https://example.com/job/42''"
    by code_simp
  have e2: "clean_wayback_url ''https://example.com/job/42'' = ''https://example.com/job/42''"
    by code_simp
  have idem: "clean_wayback_url (clean_wayback_url u) = clean_wayback_url u
        \<longleftrightarrow> search_wrapper (clean_wayback_url u) = None"
  proof (cases "search_wrapper (clean_wayback_url u)")
    case None
    then show ?thesis by (simp add: clean_wayback_url_unmatched)
  next
    case (Some g)
    from search_wrapper_shorter [OF Some] have "g \<noteq> clean_wayback_url u" by auto
    moreover from Some have "clean_wayback_url (clean_wayback_url u) = g"
      by (simp add: clean_wayback_url_def [of "clean_wayback_url u"])
    ultimately show ?thesis using Some by simp
  qed
  show ?thesis
  proof (intro conjI allI impI)
    show "search_wrapper u = None \<longleftrightarrow> (\<forall>k. wrapper_at (drop k u) = None)"
      by (rule search_wrapper_None_iff)
    show "clean_wayback_url u = u" if "search_wrapper u = None"
      using that by (rule clean_wayback_url_unmatched)
    show "clean_wayback_url u = g"
      if "wrapper_at (drop k u) = Some g \<and> (\<forall>i<k. wrapper_at (drop i u) = None)" for k g
      using that leftmost by blast
    show "\<exists>d w rest. s = ''/web/'' @ d @ w @ ''/'' @ g @ rest
            \<and> d \<noteq> [] \<and> list_all is_digit d \<and> (w = [] \<or> w = ''id_'')
            \<and> list_all not_newline g \<and> (rest = [] \<or> hd rest = CHR 0x0A)
            \<and> ((starts_with ''https://'' g \<and> 8 < length g)
                \<or> (starts_with ''http://'' g \<and> 7 < length g))"
      if "wrapper_at s = Some g" for g
      using that by (rule wrapper_at_shape)
    show "clean_wayback_url (clean_wayback_url u) = clean_wayback_url u
        \<longleftrightarrow> search_wrapper (clean_wayback_url u) = None"
      by (rule idem)
    show "clean_wayback_url ''https://web.archive.org/web/20230601000000id_/https://example.com/job/42''
       = ''https://example.com/job/42''"
      by (rule e1)
    show "clean_wayback_url ''https://example.com/job/42'' = ''https://example.com/job/42''"
      by (rule e2)
  qed
qed

theorem clean_wayback_url_unwraps_witness:
  "wrapper_at (drop 23 nested_url) = Some ''https://web.archive.org/web/2023/https://example.com/job/42''
   \<and> list_all (\<lambda>i. wrapper_at (drop i nested_url) = None) [0..<23]
   \<and> clean_wayback_url nested_url = ''https://web.archive.org/web/2023/https://example.com/job/42''
   \<and> drop 23 nested_url
       = ''/web/'' @ ''2024'' @ ''id_'' @ ''/''
           @ ''https://web.archive.org/web/2023/https://example.com/job/42'' @ []
   \<and> search_wrapper ''https://example.com/job/42'' = None
   \<and> clean_wayback_url ''https://example.com/job/42'' = ''https://example.com/job/42''
   \<and> clean_wayback_url (clean_wayback_url ''https://example.com/job/42'')
       = clean_wayback_url ''https://example.com/job/42''"
proof -
  let ?g = "''https://web.archive.org/web/2023/https://example.com/job/42''"
  have m: "wrapper_at (drop 23 nested_url) = Some ?g"
    by code_simp
  have a: "list_all (\<lambda>i. wrapper_at (drop i nested_url) = None) [0..<23]"
    by code_simp
  then have l: "\<forall>i<23. wrapper_at (drop i nested_url) = None"
    by (simp add: list_all_iff)
  have d: "drop 23 nested_url = ''/web/'' @ ''2024'' @ ''id_'' @ ''/'' @ ?g @ []"
    by code_simp
  have n: "search_wrapper ''https://example.com/job/42'' = None"
    by code_simp
  from clean_wayback_url_unwraps [of nested_url "drop 23 nested_url"] m l
  have c: "clean_wayback_url nested_url = ?g"
    by blast
  from clean_wayback_url_unwraps [of "''https://example.com/job/42''" "[]"] n
  have p: "clean_wayback_url ''https://example.com/job/42'' = ''https://example.com/job/42''"
    by blast
  from m a c d n p show ?thesis
    by (simp only: simp_thms)
qed

text \<open>
  C7 as stated fails: the archived copy of an archive URL is unwrapped one layer at a
  time, so the unwrapper is not idempotent on it.
\<close>

theorem clean_wayback_url_not_idempotent:
  "clean_wayback_url ''https://web.archive.org/web/2024id_/https://web.archive.org/web/2023/https://example.com/job/42''
     = ''https://web.archive.org/web/2023/https://example.com/job/42''
   \<and> clean_wayback_url (clean_wayback_url
        ''https://web.archive.org/web/2024id_/https://web.archive.org/web/2023/https://example.com/job/42'')
     = ''https://example.com/job/42''"
  by code_simp

end
